theory Spec2Isabelle
  imports Main "HOL-Library.Word"
begin

unbundle bit_operations_syntax

section \<open>Values of the source language\<close>

text \<open>
  The program is TypeScript. Its data are modelled as follows.
  \<^item> A \<open>Uint8Array\<close> is a list of 8-bit words.
  \<^item> A string is the list of its UTF-16 code units (natural numbers), which is what
    \<open>length\<close>, \<open>charCodeAt\<close>, \<open>===\<close> and \<open><\<close> on strings observe.
  \<^item> A \<open>number\<close> is an \<open>int\<close>. Every number the modelled functions compute is an
    integer of magnitude below \<open>2^39\<close>, far inside the range where doubles are exact;
    \<open>Math.floor (v / 62)\<close> and \<open>Math.floor (v / 2^32)\<close> of such an integer are the
    floor quotient (the rounded quotient of a non-multiple stays at least \<open>1/62\<close>
    away from the next integer).
  \<^item> The bitwise operators \<open><<\<close>, \<open>>>\<close>, \<open>|\<close> and \<open>&\<close> on numbers convert their
    operands to signed 32-bit integers and return one: they are operations on
    \<open>32 word\<close>, read back with \<open>sint\<close>.
  \<^item> A \<open>bigint\<close> is an \<open>int\<close> (unbounded, two's complement for \<open>>>\<close> and \<open>&\<close>).
  \<^item> A thrown \<open>Error\<close> is the left summand of a sum type; a call that never returns
    is \<open>None\<close>.
\<close>

type_synonym byte = "8 word"
type_synonym jsstring = "nat list"

datatype error =
    InvalidByteLength
  | InvalidPayloadLength
  | InvalidStringLength
  | OutOfStringBounds
  | Base62DecodeFailed
  | TooManyIds

definition js_string :: "string \<Rightarrow> jsstring" where
  "js_string s = map of_char s"

subsection \<open>constants.ts\<close>

definition TIMESTAMP_BYTE_LENGTH :: nat where "TIMESTAMP_BYTE_LENGTH = 4"
definition PAYLOAD_BYTE_LENGTH :: nat where "PAYLOAD_BYTE_LENGTH = 16"
definition BYTE_LENGTH :: nat where
  "BYTE_LENGTH = TIMESTAMP_BYTE_LENGTH + PAYLOAD_BYTE_LENGTH"
definition STRING_ENCODED_LENGTH :: nat where "STRING_ENCODED_LENGTH = 27"
definition MIN_STRING_ENCODED :: jsstring where
  "MIN_STRING_ENCODED = js_string ''000000000000000000000000000''"
definition MAX_STRING_ENCODED :: jsstring where
  "MAX_STRING_ENCODED = js_string ''aWgEPTl1tmebfsQzFP4bxwgy80V''"
definition BASE62_CHARACTERS :: jsstring where
  "BASE62_CHARACTERS =
     js_string ''0123456789ABCDEFGHIJKLMNOPQRSTUVWXYZabcdefghijklmnopqrstuvwxyz''"
definition ZERO_STRING :: jsstring where
  "ZERO_STRING = js_string ''000000000000000000000000000''"
definition OFFSET_UPPERCASE :: int where "OFFSET_UPPERCASE = 10"
definition OFFSET_LOWERCASE :: int where "OFFSET_LOWERCASE = 36"

subsection \<open>Primitive operations of the language\<close>

text \<open>\<open>s.charCodeAt(i)\<close>: the code unit at index \<open>i\<close>, or \<open>NaN\<close> (here \<open>None\<close>) when
  \<open>i\<close> is not an index of \<open>s\<close>.\<close>

definition charCodeAt :: "jsstring \<Rightarrow> int \<Rightarrow> int option" where
  "charCodeAt s i =
     (if 0 \<le> i \<and> i < int (length s) then Some (int (s ! nat i)) else None)"

text \<open>Conversion of a number to an element of a \<open>Uint8Array\<close>: modulo 256, and
  \<open>NaN\<close> becomes 0.\<close>

definition to_uint8 :: "int option \<Rightarrow> byte" where
  "to_uint8 v = (case v of None \<Rightarrow> 0 | Some k \<Rightarrow> word_of_int k)"

text \<open>\<open>a[i] = v\<close> on a \<open>Uint8Array\<close>: a store outside the array is ignored.\<close>

definition store :: "byte list \<Rightarrow> int \<Rightarrow> byte \<Rightarrow> byte list" where
  "store a i v = (if 0 \<le> i \<and> i < int (length a) then a[nat i := v] else a)"

text \<open>\<open>a[i]\<close> on a \<open>Uint8Array\<close> as an operand of a bitwise operator: a read
  outside the array is \<open>undefined\<close>, which the operator converts to 0.\<close>

definition load32 :: "byte list \<Rightarrow> nat \<Rightarrow> 32 word" where
  "load32 a i = (if i < length a then ucast (a ! i) else 0)"

text \<open>\<open>(a[i] << 24) | (a[i+1] << 16) | (a[i+2] << 8) | a[i+3]\<close>, the expression that
  \<open>getTimestamp\<close> and \<open>fastEncodeBase62\<close> use to read four bytes: a signed 32-bit
  result.\<close>

definition be32 :: "byte list \<Rightarrow> nat \<Rightarrow> int" where
  "be32 a i =
     sint (push_bit 24 (load32 a i) OR push_bit 16 (load32 a (i + 1))
           OR push_bit 8 (load32 a (i + 2)) OR load32 a (i + 3))"

text \<open>\<open>(x >> k) & 0xFF\<close> on a number, stored in a \<open>Uint8Array\<close>.\<close>

definition byte_of :: "int \<Rightarrow> nat \<Rightarrow> byte" where
  "byte_of x k = ucast (signed_drop_bit k (word_of_int x :: 32 word) AND 255)"

text \<open>\<open>a % b\<close> on numbers: the remainder has the sign of the dividend.\<close>

definition js_rem :: "int \<Rightarrow> int \<Rightarrow> int" where
  "js_rem a b = sgn a * (\<bar>a\<bar> mod \<bar>b\<bar>)"

text \<open>\<open>a.slice(i, j)\<close> and \<open>a.slice(i)\<close> for indices that are not negative.\<close>

definition slice :: "'a list \<Rightarrow> nat \<Rightarrow> nat \<Rightarrow> 'a list" where
  "slice a i j = take (j - i) (drop i a)"

definition slice_from :: "'a list \<Rightarrow> nat \<Rightarrow> 'a list" where
  "slice_from a i = drop i a"

text \<open>\<open>s < t\<close> on strings: lexicographic on code units, a proper prefix is smaller.\<close>

fun str_less :: "jsstring \<Rightarrow> jsstring \<Rightarrow> bool" where
  "str_less [] [] = False"
| "str_less [] (y # ys) = True"
| "str_less (x # xs) [] = False"
| "str_less (x # xs) (y # ys) = (x < y \<or> (x = y \<and> str_less xs ys))"

text \<open>\<open>new TextEncoder().encode(s)\<close>: the UTF-8 bytes of \<open>s\<close>. A code unit below
  \<open>0x80\<close> is one byte, one below \<open>0x800\<close> two bytes, a surrogate pair four bytes, and
  any other code unit three bytes (a lone surrogate is replaced by U+FFFD).\<close>

definition utf8_2 :: "nat \<Rightarrow> byte list" where
  "utf8_2 u = [of_nat (192 + u div 64), of_nat (128 + u mod 64)]"

definition utf8_3 :: "nat \<Rightarrow> byte list" where
  "utf8_3 u = [of_nat (224 + u div 4096), of_nat (128 + (u div 64) mod 64),
               of_nat (128 + u mod 64)]"

definition utf8_4 :: "nat \<Rightarrow> byte list" where
  "utf8_4 u = [of_nat (240 + u div 262144), of_nat (128 + (u div 4096) mod 64),
               of_nat (128 + (u div 64) mod 64), of_nat (128 + u mod 64)]"

definition is_high_surrogate :: "nat \<Rightarrow> bool" where
  "is_high_surrogate u = (55296 \<le> u \<and> u < 56320)"

definition is_low_surrogate :: "nat \<Rightarrow> bool" where
  "is_low_surrogate u = (56320 \<le> u \<and> u < 57344)"

fun TextEncoder_encode :: "jsstring \<Rightarrow> byte list" where
  "TextEncoder_encode [] = []"
| "TextEncoder_encode [u] =
     (if u < 128 then [of_nat u]
      else if u < 2048 then utf8_2 u
      else if is_high_surrogate u \<or> is_low_surrogate u then utf8_3 65533
      else utf8_3 u)"
| "TextEncoder_encode (u # v # s) =
     (if u < 128 then of_nat u # TextEncoder_encode (v # s)
      else if u < 2048 then utf8_2 u @ TextEncoder_encode (v # s)
      else if is_high_surrogate u \<and> is_low_surrogate v
        then utf8_4 (65536 + (u - 55296) * 1024 + (v - 56320)) @ TextEncoder_encode s
      else if is_high_surrogate u \<or> is_low_surrogate u
        then utf8_3 65533 @ TextEncoder_encode (v # s)
      else utf8_3 u @ TextEncoder_encode (v # s))"

text \<open>\<open>new TextDecoder().decode(a)\<close>, for the arrays the encoder passes to it: every
  byte that \<open>fastEncodeBase62\<close> stores is 0 or the code of an alphabet character, and
  UTF-8 decoding maps a byte below \<open>0x80\<close> to the code unit of the same value.\<close>

definition TextDecoder_decode :: "byte list \<Rightarrow> jsstring" where
  "TextDecoder_decode a = map unat a"

section \<open>base62.ts\<close>

text \<open>\<open>base62Value\<close>: the last branch takes every character that is neither a digit
  nor an upper-case letter.\<close>

definition base62Value :: "int \<Rightarrow> int" where
  "base62Value charCode =
     (if charCode \<ge> 48 \<and> charCode \<le> 57 then charCode - 48
      else if charCode \<ge> 65 \<and> charCode \<le> 90 then OFFSET_UPPERCASE + (charCode - 65)
      else OFFSET_LOWERCASE + (charCode - 97))"

text \<open>The inner \<open>for (const c of bp)\<close> loop, which \<open>fastEncodeBase62\<close> and
  \<open>fastDecodeBase62\<close> both contain word for word: one pass of schoolbook division
  of the digits \<open>bp\<close> (base \<open>srcBase\<close>) by \<open>dstBase\<close>. It returns the quotient
  without its leading zeros, and the remainder.\<close>

fun divide_pass :: "int \<Rightarrow> int \<Rightarrow> int list \<Rightarrow> int list \<Rightarrow> int \<Rightarrow> int list \<times> int" where
  "divide_pass srcBase dstBase [] quot remainder = (quot, remainder)"
| "divide_pass srcBase dstBase (c # bp) quot remainder =
     (let v = c + remainder * srcBase;
          digit = v div dstBase
      in divide_pass srcBase dstBase bp
           (if quot \<noteq> [] \<or> digit \<noteq> 0 then quot @ [digit] else quot)
           (js_rem v dstBase))"

text \<open>The padding loop \<open>for (let i = 0; i < n; i++) dst[i] = ZERO_STRING.charCodeAt(i)\<close>,
  started at \<open>i\<close>.\<close>

function pad_head :: "byte list \<Rightarrow> int \<Rightarrow> int \<Rightarrow> byte list" where
  "pad_head dst i n =
     (if i < n then pad_head (store dst i (to_uint8 (charCodeAt ZERO_STRING i))) (i + 1) n
      else dst)"
  by pat_completeness auto
termination
  by (relation "measure (\<lambda>(dst, i, n). nat (n - i))") auto

text \<open>The \<open>while (bp.length !== 0)\<close> loop of \<open>fastEncodeBase62\<close>, followed by the
  rest of the function (the padding loop and the \<open>return\<close>). Nothing bounds the
  number of passes of the \<open>while\<close> loop, so this is a partial function: \<open>None\<close> is
  a loop that never ends.\<close>

partial_function (option) encode_loop :: "int list \<Rightarrow> int \<Rightarrow> byte list \<Rightarrow> jsstring option" where
  "encode_loop bp n dst =
     (if bp = [] then Some (TextDecoder_decode (pad_head dst 0 n))
      else encode_loop (fst (divide_pass 4294967296 62 bp [] 0)) (n - 1)
             (store dst (n - 1)
                (to_uint8 (charCodeAt BASE62_CHARACTERS
                   (snd (divide_pass 4294967296 62 bp [] 0))))))"

definition fastEncodeBase62 :: "byte list \<Rightarrow> jsstring option" where
  "fastEncodeBase62 src =
     encode_loop [be32 src 0, be32 src 4, be32 src 8, be32 src 12, be32 src 16]
       (int STRING_ENCODED_LENGTH) (replicate STRING_ENCODED_LENGTH 0)"

definition encodeBase62 :: "byte list \<Rightarrow> jsstring option" where
  "encodeBase62 bytes = fastEncodeBase62 bytes"

text \<open>The four stores \<open>dst[n-4] = (remainder >> 24) & 0xFF\<close> to
  \<open>dst[n-1] = remainder & 0xFF\<close> of \<open>fastDecodeBase62\<close>.\<close>

definition store_remainder :: "byte list \<Rightarrow> int \<Rightarrow> int \<Rightarrow> byte list" where
  "store_remainder dst n r =
     store (store (store (store dst (n - 4) (byte_of r 24)) (n - 3) (byte_of r 16))
       (n - 2) (byte_of r 8)) (n - 1) (byte_of r 0)"

text \<open>The loop \<open>for (let i = 0; i < n; i++) dst[i] = 0\<close> that ends
  \<open>fastDecodeBase62\<close>, started at \<open>i\<close>.\<close>

function zero_head :: "byte list \<Rightarrow> nat \<Rightarrow> nat \<Rightarrow> byte list" where
  "zero_head dst i n = (if i < n then zero_head (store dst (int i) 0) (i + 1) n else dst)"
  by pat_completeness auto
termination
  by (relation "measure (\<lambda>(dst, i, n). n - i)") auto

text \<open>The \<open>while (bp.length > 0)\<close> loop of \<open>fastDecodeBase62\<close>, followed by the rest
  of the function. The result is the returned boolean and the final contents of
  \<open>dst\<close>. Each pass that does not return lowers \<open>n\<close> by 4.\<close>

function decode_loop :: "int list \<Rightarrow> nat \<Rightarrow> byte list \<Rightarrow> bool \<times> byte list" where
  "decode_loop bp n dst =
     (if bp = [] then (True, zero_head dst 0 n)
      else if n < 4 then (False, dst)
      else decode_loop (fst (divide_pass 62 4294967296 bp [] 0)) (n - 4)
             (store_remainder dst (int n) (snd (divide_pass 62 4294967296 bp [] 0))))"
  by pat_completeness auto
termination
  by (relation "measure (\<lambda>(bp, n, dst). n)") auto

text \<open>The digits of \<open>fastDecodeBase62\<close>: \<open>base62Value\<close> of each byte, stored in a
  \<open>Uint8Array\<close>, hence taken modulo 256.\<close>

definition base62_parts :: "byte list \<Rightarrow> int list" where
  "base62_parts src = map (\<lambda>b. uint (to_uint8 (Some (base62Value (uint b))))) src"

definition fastDecodeBase62 :: "byte list \<Rightarrow> byte list \<Rightarrow> bool \<times> byte list" where
  "fastDecodeBase62 dst src =
     (if length src \<noteq> STRING_ENCODED_LENGTH then (False, dst)
      else decode_loop (base62_parts src) BYTE_LENGTH dst)"

definition decodeBase62 :: "jsstring \<Rightarrow> error + byte list" where
  "decodeBase62 str =
     (case fastDecodeBase62 (replicate BYTE_LENGTH 0) (TextEncoder_encode str) of
        (ok, dst) \<Rightarrow> if ok then Inr dst else Inl Base62DecodeFailed)"

section \<open>uint128.ts\<close>

text \<open>\<open>class Uint128\<close>: two \<open>bigint\<close> fields. The constructor takes the high half
  first; nothing in the class reduces a field modulo \<open>2^64\<close>.\<close>

datatype uint128 = Uint128 (high: int) (low: int)

definition bytesToBigInt :: "byte list \<Rightarrow> int" where
  "bytesToBigInt bs = foldl (\<lambda>result b. push_bit 8 result OR uint b) 0 bs"

definition fromPayload :: "byte list \<Rightarrow> uint128" where
  "fromPayload payload =
     Uint128 (bytesToBigInt (slice payload 0 8)) (bytesToBigInt (slice payload 8 16))"

text \<open>\<open>writeBigInt\<close>: the loop \<open>for (let i = 0; i < length; i++)\<close>, started at
  \<open>i\<close>.\<close>

function writeBigInt :: "byte list \<Rightarrow> nat \<Rightarrow> int \<Rightarrow> nat \<Rightarrow> nat \<Rightarrow> byte list" where
  "writeBigInt array offset v len i =
     (if i < len
      then writeBigInt
             (store array (int (offset + i))
                (to_uint8 (Some (drop_bit (8 * (len - 1 - i)) v AND 255))))
             offset v len (i + 1)
      else array)"
  by pat_completeness auto
termination
  by (relation "measure (\<lambda>(array, offset, v, len, i). len - i)") auto

definition toKSUID :: "uint128 \<Rightarrow> int \<Rightarrow> byte list" where
  "toKSUID u timestamp =
     writeBigInt
       (writeBigInt
          (store (store (store (store (replicate 20 0) 0 (byte_of timestamp 24))
             1 (byte_of timestamp 16)) 2 (byte_of timestamp 8)) 3 (byte_of timestamp 0))
          4 (high u) 8 0)
       12 (low u) 8 0"

definition toBytes :: "uint128 \<Rightarrow> byte list" where
  "toBytes u = writeBigInt (writeBigInt (replicate 16 0) 0 (high u) 8 0) 8 (low u) 8 0"

definition Uint128_compare :: "uint128 \<Rightarrow> uint128 \<Rightarrow> int" where
  "Uint128_compare this other =
     (if high this < high other then - 1
      else if high this > high other then 1
      else if low this < low other then - 1
      else if low this > low other then 1
      else 0)"

definition Uint128_add :: "uint128 \<Rightarrow> uint128 \<Rightarrow> uint128" where
  "Uint128_add this other =
     (if low this + low other > 0xFFFFFFFFFFFFFFFF
      then Uint128 (high this + high other + 1)
                   ((low this + low other) AND 0xFFFFFFFFFFFFFFFF)
      else Uint128 (high this + high other) (low this + low other))"

definition Uint128_subtract :: "uint128 \<Rightarrow> uint128 \<Rightarrow> uint128" where
  "Uint128_subtract this other =
     (if low this \<ge> low other
      then Uint128 (high this - high other) (low this - low other)
      else Uint128 (high this - 1 - high other)
                   (low this + 0x10000000000000000 - low other))"

definition Uint128_increment :: "uint128 \<Rightarrow> uint128" where
  "Uint128_increment this =
     (if low this + 1 > 0xFFFFFFFFFFFFFFFF
      then Uint128 (high this + 1) 0
      else Uint128 (high this) (low this + 1))"

definition Uint128_equals :: "uint128 \<Rightarrow> uint128 \<Rightarrow> bool" where
  "Uint128_equals this other = (low this = low other \<and> high this = high other)"

definition Uint128_ZERO :: uint128 where "Uint128_ZERO = Uint128 0 0"
definition Uint128_ONE :: uint128 where "Uint128_ONE = Uint128 0 1"
definition Uint128_MAX :: uint128 where
  "Uint128_MAX = Uint128 0xFFFFFFFFFFFFFFFF 0xFFFFFFFFFFFFFFFF"

definition uint128Payload :: "byte list \<Rightarrow> uint128" where
  "uint128Payload ksuid = fromPayload (slice_from ksuid TIMESTAMP_BYTE_LENGTH)"

section \<open>ksuid.ts\<close>

text \<open>\<open>class KSUID\<close> has one field, the byte array. The constructor throws unless
  the array has \<open>BYTE_LENGTH\<close> bytes, so every identifier that exists satisfies
  \<open>valid\<close>.\<close>

datatype ksuid = KSUID (bytes: "byte list")

definition new_KSUID :: "byte list \<Rightarrow> error + ksuid" where
  "new_KSUID bs = (if length bs \<noteq> BYTE_LENGTH then Inl InvalidByteLength else Inr (KSUID bs))"

definition valid :: "ksuid \<Rightarrow> bool" where
  "valid k = (length (bytes k) = BYTE_LENGTH)"

definition getBytes :: "ksuid \<Rightarrow> byte list" where
  "getBytes k = bytes k"

definition getTimestamp :: "ksuid \<Rightarrow> int" where
  "getTimestamp k = be32 (bytes k) 0"

definition getPayload :: "ksuid \<Rightarrow> byte list" where
  "getPayload k = slice_from (bytes k) TIMESTAMP_BYTE_LENGTH"

definition toString :: "ksuid \<Rightarrow> jsstring option" where
  "toString k = encodeBase62 (bytes k)"

text \<open>\<open>compare\<close>: the loop \<open>for (let i = 0; i < BYTE_LENGTH; i++)\<close>, started at
  \<open>i\<close>, on the two byte arrays.\<close>

function compare_loop :: "byte list \<Rightarrow> byte list \<Rightarrow> nat \<Rightarrow> int" where
  "compare_loop thisBytes otherBytes i =
     (if i < BYTE_LENGTH
      then (if thisBytes ! i \<noteq> otherBytes ! i
            then uint (thisBytes ! i) - uint (otherBytes ! i)
            else compare_loop thisBytes otherBytes (i + 1))
      else 0)"
  by pat_completeness auto
termination
  by (relation "measure (\<lambda>(thisBytes, otherBytes, i). BYTE_LENGTH - i)") auto

definition compare :: "ksuid \<Rightarrow> ksuid \<Rightarrow> int" where
  "compare this other = compare_loop (getBytes this) (getBytes other) 0"

text \<open>\<open>equals\<close> compares the two \<open>toString()\<close> results; it returns only if both
  calls return.\<close>

definition equals :: "ksuid \<Rightarrow> ksuid \<Rightarrow> bool option" where
  "equals this other =
     (case toString this of
        None \<Rightarrow> None
      | Some s \<Rightarrow> (case toString other of None \<Rightarrow> None | Some t \<Rightarrow> Some (s = t)))"

definition "next" :: "ksuid \<Rightarrow> error + ksuid" where
  "next this =
     (if Uint128_equals (Uint128_increment (uint128Payload (bytes this))) Uint128_ZERO
      then new_KSUID (toKSUID (Uint128_increment (uint128Payload (bytes this)))
                        (getTimestamp this + 1))
      else new_KSUID (toKSUID (Uint128_increment (uint128Payload (bytes this)))
                        (getTimestamp this)))"

definition prev :: "ksuid \<Rightarrow> error + ksuid" where
  "prev this =
     (if Uint128_equals (Uint128_subtract (uint128Payload (bytes this)) Uint128_ONE) Uint128_MAX
      then new_KSUID (toKSUID (Uint128_subtract (uint128Payload (bytes this)) Uint128_ONE)
                        (getTimestamp this - 1))
      else new_KSUID (toKSUID (Uint128_subtract (uint128Payload (bytes this)) Uint128_ONE)
                        (getTimestamp this)))"

definition parse :: "jsstring \<Rightarrow> error + ksuid" where
  "parse str =
     (if length str \<noteq> STRING_ENCODED_LENGTH then Inl InvalidStringLength
      else if str_less str MIN_STRING_ENCODED \<or> str_less MAX_STRING_ENCODED str
        then Inl OutOfStringBounds
      else (case decodeBase62 str of Inl e \<Rightarrow> Inl e | Inr bs \<Rightarrow> new_KSUID bs))"

definition Nil_KSUID :: ksuid where
  "Nil_KSUID = KSUID (replicate BYTE_LENGTH 0)"

definition Max_KSUID :: ksuid where
  "Max_KSUID = KSUID (replicate BYTE_LENGTH 255)"

section \<open>sequence.ts\<close>

text \<open>Modelled from the spec: the file \<open>sequence.ts\<close> (the class \<open>Sequence\<close>) is not
  among the sources; only its type declarations, its tests and its callers are.
  The state is the seed, fixed at construction, and the counter, which starts at
  0.\<close>

record sequence =
  seed :: ksuid
  counter :: nat

definition new_Sequence :: "ksuid \<Rightarrow> sequence" where
  "new_Sequence s = \<lparr>seed = s, counter = 0\<rparr>"

text \<open>Modelled from the spec: an emitted identifier has the seed's timestamp and the
  seed's high-order 112 payload bits (bytes 0 to 17), and the low 16 payload bits
  (bytes 18 and 19, big-endian) set to the counter value.\<close>

definition withSequenceNumber :: "ksuid \<Rightarrow> nat \<Rightarrow> ksuid" where
  "withSequenceNumber k n =
     KSUID (take 18 (bytes k) @ [of_nat (n div 256), of_nat (n mod 256)])"

text \<open>Modelled from the spec: \<open>next()\<close> of a sequence. While the counter is in
  \<open>[0, 65536)\<close> the call emits the identifier for the current counter value and
  advances the counter by one; once the counter has reached 65536 the sequence is
  exhausted, and the call fails and leaves the state as it is. The result is the
  returned value (or the error) and the new state.\<close>

definition Sequence_next :: "sequence \<Rightarrow> (error + ksuid) \<times> sequence" where
  "Sequence_next q =
     (if counter q \<ge> 65536 then (Inl TooManyIds, q)
      else (Inr (withSequenceNumber (seed q) (counter q)), q\<lparr>counter := counter q + 1\<rparr>))"

text \<open>The state of a sequence after \<open>k\<close> calls of \<open>next()\<close>, and the result of call
  number \<open>i + 1\<close> on a fresh sequence with seed \<open>s\<close>.\<close>

fun calls :: "nat \<Rightarrow> sequence \<Rightarrow> sequence" where
  "calls 0 q = q"
| "calls (Suc k) q = snd (Sequence_next (calls k q))"

definition emitted :: "ksuid \<Rightarrow> nat \<Rightarrow> error + ksuid" where
  "emitted s i = fst (Sequence_next (calls i (new_Sequence s)))"

section \<open>Notions used in the statements and proofs\<close>

text \<open>The big-endian bytes of the low \<open>8 * len\<close> bits of an integer: what
  \<open>writeBigInt\<close> stores.\<close>

definition be_bytes :: "nat \<Rightarrow> int \<Rightarrow> byte list" where
  "be_bytes len v = map (\<lambda>j. word_of_int (drop_bit (8 * (len - 1 - j)) v)) [0..<len]"

text \<open>The two halves of the payload of an identifier, as \<open>uint128Payload\<close> reads
  them.\<close>

definition hi64 :: "ksuid \<Rightarrow> int" where
  "hi64 x = bytesToBigInt (take 8 (drop 4 (bytes x)))"

definition lo64 :: "ksuid \<Rightarrow> int" where
  "lo64 x = bytesToBigInt (drop 12 (bytes x))"

text \<open>The identifier with the timestamp bytes of \<open>x\<close> and the payload halves \<open>a\<close> and
  \<open>b\<close> (each taken modulo \<open>2^64\<close>).\<close>

definition rebuild :: "ksuid \<Rightarrow> int \<Rightarrow> int \<Rightarrow> ksuid" where
  "rebuild x a b = KSUID (take 4 (bytes x) @ be_bytes 8 a @ be_bytes 8 b)"

text \<open>The value of a list of digits, most significant first.\<close>

definition digits_value :: "int \<Rightarrow> int list \<Rightarrow> int" where
  "digits_value base ds = foldl (\<lambda>a d. a * base + d) 0 ds"

text \<open>A string all of whose code units are below \<open>0x80\<close>.\<close>

definition is_ascii :: "jsstring \<Rightarrow> bool" where
  "is_ascii s = list_all (\<lambda>u. u < 128) s"

text \<open>The number that \<open>fastDecodeBase62\<close> reads from a string: the base-62 value of
  the digits that \<open>base62Value\<close> assigns to its characters, alphabet or not, each
  taken modulo 256.\<close>

definition base62_number :: "jsstring \<Rightarrow> int" where
  "base62_number s =
     digits_value 62 (map (\<lambda>u. uint (to_uint8 (Some (base62Value (int u))))) s)"

text \<open>A quotient as the division pass leaves it: no leading zero, no negative
  digit.\<close>

definition canonical :: "int list \<Rightarrow> bool" where
  "canonical q = ((q = [] \<or> hd q \<noteq> 0) \<and> list_all (\<lambda>d. 0 \<le> d) q)"


section \<open>Evaluation rules\<close>

text \<open>The loops are unfolded one pass at a time, and only once their guard is
  decided, so that the simplifier evaluates them on concrete inputs.\<close>

lemma divide_pass_step:
  "divide_pass sB dB (c # bp) q r =
     divide_pass sB dB bp
       (if q \<noteq> [] \<or> (c + r * sB) div dB \<noteq> 0 then q @ [(c + r * sB) div dB] else q)
       (js_rem (c + r * sB) dB)"
  by (simp add: Let_def)
declare divide_pass.simps(2) [simp del]
declare pad_head.simps [simp del]
declare zero_head.simps [simp del]
declare decode_loop.simps [simp del]
declare writeBigInt.simps [simp del]
declare compare_loop.simps [simp del]
lemma list_update_Cons_numeral: "(x # xs)[numeral v := y] = x # xs[numeral v - 1 := y]"
  by (simp add: numeral_eq_Suc)
lemma replicate_numeral: "replicate (numeral v) x = x # replicate (numeral v - 1) x"
  by (simp add: numeral_eq_Suc)
lemma encode_loop_Nil: "encode_loop [] n dst = Some (TextDecoder_decode (pad_head dst 0 n))"
  by (simp add: encode_loop.simps)
lemma encode_loop_Cons:
  "encode_loop (c # cs) n dst =
     encode_loop (fst (divide_pass 4294967296 62 (c # cs) [] 0)) (n - 1)
       (store dst (n - 1) (to_uint8 (charCodeAt BASE62_CHARACTERS
           (snd (divide_pass 4294967296 62 (c # cs) [] 0)))))"
  by (subst encode_loop.simps) simp
lemma decode_loop_Nil: "decode_loop [] n dst = (True, zero_head dst 0 n)"
  by (simp add: decode_loop.simps)
lemma decode_loop_Cons:
  "decode_loop (c # cs) n dst =
     (if n < 4 then (False, dst)
      else decode_loop (fst (divide_pass 62 4294967296 (c # cs) [] 0)) (n - 4)
             (store_remainder dst (int n) (snd (divide_pass 62 4294967296 (c # cs) [] 0))))"
  by (subst decode_loop.simps) simp
lemma pad_head_step:
  "i < n \<Longrightarrow> pad_head dst i n =
     pad_head (store dst i (to_uint8 (charCodeAt ZERO_STRING i))) (i + 1) n"
  by (subst pad_head.simps) simp
lemma pad_head_done: "\<not> i < n \<Longrightarrow> pad_head dst i n = dst"
  by (subst pad_head.simps) simp
lemma zero_head_step:
  "i < n \<Longrightarrow> zero_head dst i n = zero_head (store dst (int i) 0) (i + 1) n"
  by (subst zero_head.simps) simp
lemma zero_head_done: "\<not> i < n \<Longrightarrow> zero_head dst i n = dst"
  by (subst zero_head.simps) simp
lemma writeBigInt_step:
  "i < len \<Longrightarrow> writeBigInt array offset v len i =
     writeBigInt (store array (int (offset + i))
                    (to_uint8 (Some (drop_bit (8 * (len - 1 - i)) v AND 255))))
       offset v len (i + 1)"
  by (subst writeBigInt.simps) simp
lemma writeBigInt_done: "\<not> i < len \<Longrightarrow> writeBigInt array offset v len i = array"
  by (subst writeBigInt.simps) simp
lemma compare_loop_step:
  "i < BYTE_LENGTH \<Longrightarrow> compare_loop a b i =
     (if a ! i \<noteq> b ! i then uint (a ! i) - uint (b ! i) else compare_loop a b (i + 1))"
  by (subst compare_loop.simps) simp
lemma compare_loop_done: "\<not> i < BYTE_LENGTH \<Longrightarrow> compare_loop a b i = 0"
  by (subst compare_loop.simps) simp

lemmas loop_rules =
  encode_loop_Nil encode_loop_Cons decode_loop_Nil decode_loop_Cons pad_head_step
  pad_head_done zero_head_step zero_head_done writeBigInt_step writeBigInt_done
  compare_loop_step compare_loop_done divide_pass_step

lemmas const_defs =
  BYTE_LENGTH_def TIMESTAMP_BYTE_LENGTH_def PAYLOAD_BYTE_LENGTH_def
  STRING_ENCODED_LENGTH_def OFFSET_UPPERCASE_def OFFSET_LOWERCASE_def
  BASE62_CHARACTERS_def ZERO_STRING_def MIN_STRING_ENCODED_def MAX_STRING_ENCODED_def
  js_string_def

lemmas prim_defs =
  list_update_Cons_numeral replicate_numeral charCodeAt_def to_uint8_def store_def
  load32_def be32_def byte_of_def js_rem_def slice_def slice_from_def

lemmas enc_eval =
  const_defs prim_defs loop_rules encodeBase62_def fastEncodeBase62_def
  TextDecoder_decode_def

lemmas dec_eval =
  const_defs prim_defs loop_rules decodeBase62_def fastDecodeBase62_def base62_parts_def
  base62Value_def store_remainder_def

lemmas u128_eval =
  const_defs prim_defs loop_rules uint128Payload_def fromPayload_def bytesToBigInt_def
  toKSUID_def Uint128_increment_def Uint128_subtract_def Uint128_add_def
  Uint128_equals_def Uint128_ZERO_def Uint128_ONE_def Uint128_MAX_def

lemmas ksuid_eval =
  new_KSUID_def valid_def getTimestamp_def getBytes_def compare_def next_def prev_def
  parse_def toString_def equals_def Nil_KSUID_def Max_KSUID_def

section \<open>The 128-bit increment\<close>

text \<open>\<open>increment\<close> and \<open>add\<close> of \<open>ONE\<close> build the same object whenever the low
  field is below \<open>2^64\<close>, as it is for every value read from bytes.\<close>

lemma increment_eq_add_ONE:
  assumes "low v \<le> 0xFFFFFFFFFFFFFFFF"
  shows "Uint128_increment v = Uint128_add v Uint128_ONE"
proof (cases "low v = 0xFFFFFFFFFFFFFFFF")
  case True
  then show ?thesis
    by (simp add: Uint128_increment_def Uint128_add_def Uint128_ONE_def)
next
  case False
  with assms show ?thesis
    by (simp add: Uint128_increment_def Uint128_add_def Uint128_ONE_def)
qed

text \<open>C5. The claim: \<open>increment v\<close> is \<open>add v 1\<close> modulo \<open>2^128\<close>, and \<open>increment\<close>
  of \<open>MAX\<close> is \<open>ZERO\<close>. In the code, \<open>increment\<close> of \<open>MAX\<close> carries into the high
  field without reducing it: the result has the high field \<open>2^64\<close>, and
  \<open>equals\<close> does not identify it with \<open>ZERO\<close>.\<close>

theorem C5_increment_MAX_is_not_ZERO:
  "Uint128_increment Uint128_MAX = Uint128 18446744073709551616 0 \<and>
   Uint128_equals (Uint128_increment Uint128_MAX) Uint128_ZERO = False \<and>
   Uint128_compare (Uint128_increment Uint128_MAX) Uint128_ZERO = 1"
  by (simp add: Uint128_increment_def Uint128_MAX_def Uint128_ZERO_def Uint128_equals_def
        Uint128_compare_def)

section \<open>The timestamp accessor\<close>

text \<open>C6. The claim: \<open>getTimestamp\<close> returns bytes 0 to 3 as an unsigned 32-bit
  number, also when byte 0 has its high bit set. In the code the result of the
  bitwise expression is a signed 32-bit number: for the bytes \<open>80 00 00 00\<close> it is
  \<open>- 2^31\<close>, not \<open>2^31\<close>.\<close>

theorem C6_getTimestamp_negative:
  "getTimestamp (KSUID [128, 0, 0, 0, 0, 0, 0, 0, 0, 0, 0, 0, 0, 0, 0, 0, 0, 0, 0, 0])
     = - 2147483648"
  by (simp add: getTimestamp_def be32_def load32_def)

section \<open>The division pass\<close>

text \<open>The division pass on digits that are not negative is exact: it leaves the
  quotient (without leading zeros) and the remainder of the number by
  \<open>dstBase\<close>.\<close>

lemma foldl_digits: "foldl (\<lambda>a d. a * base + d) a ds = a * base ^ length ds + digits_value base ds"
proof (induction ds arbitrary: a)
  case Nil
  show ?case by (simp add: digits_value_def)
next
  case (Cons d ds)
  have "foldl (\<lambda>a d. a * base + d) a (d # ds) = (a * base + d) * base ^ length ds + digits_value base ds"
    using Cons [of "a * base + d"] by simp
  moreover have "digits_value base (d # ds) = d * base ^ length ds + digits_value base ds"
    using Cons [of d] by (simp add: digits_value_def)
  ultimately show ?case by (simp add: algebra_simps)
qed

lemma digits_value_Nil: "digits_value base [] = 0"
  by (simp add: digits_value_def)

lemma digits_value_Cons: "digits_value base (d # ds) = d * base ^ length ds + digits_value base ds"
  using foldl_digits [of base d ds] by (simp add: digits_value_def)

lemma digits_value_snoc: "digits_value base (ds @ [d]) = digits_value base ds * base + d"
  by (simp add: digits_value_def)

lemma digits_value_nonneg:
  "0 \<le> base \<Longrightarrow> list_all (\<lambda>d. 0 \<le> d) ds \<Longrightarrow> 0 \<le> digits_value base ds"
  by (induction ds rule: rev_induct) (simp_all add: digits_value_Nil digits_value_snoc)

lemma canonical_value:
  assumes "canonical q" "0 < base"
  shows "q = [] \<longleftrightarrow> digits_value base q = 0"
proof (cases q)
  case Nil
  then show ?thesis by (simp add: digits_value_Nil)
next
  case (Cons d ds)
  have d: "0 < d" and ds: "list_all (\<lambda>d. 0 \<le> d) ds"
    using assms(1) Cons by (auto simp add: canonical_def)
  have "0 < d * base ^ length ds" using d assms(2) by simp
  moreover have "0 \<le> digits_value base ds" using ds assms(2) by (intro digits_value_nonneg) simp_all
  ultimately show ?thesis using Cons by (simp add: digits_value_Cons)
qed

lemma js_rem_nonneg: "0 \<le> v \<Longrightarrow> 0 < b \<Longrightarrow> js_rem v b = v mod b"
  by (cases "v = 0") (simp_all add: js_rem_def)

lemma divide_pass_value:
  assumes "0 < dB" "0 \<le> sB" "list_all (\<lambda>c. 0 \<le> c) bp" "0 \<le> r" "r < dB" "canonical q"
  shows "canonical (fst (divide_pass sB dB bp q r)) \<and>
         0 \<le> snd (divide_pass sB dB bp q r) \<and> snd (divide_pass sB dB bp q r) < dB \<and>
         digits_value sB (fst (divide_pass sB dB bp q r)) * dB + snd (divide_pass sB dB bp q r)
           = (digits_value sB q * dB + r) * sB ^ length bp + digits_value sB bp"
  using assms(3-6)
proof (induction bp arbitrary: q r)
  case Nil
  then show ?case by (simp add: digits_value_Nil)
next
  case (Cons c bp)
  define v where "v = c + r * sB"
  define digit where "digit = v div dB"
  define q1 where "q1 = (if q \<noteq> [] \<or> digit \<noteq> 0 then q @ [digit] else q)"
  have c: "0 \<le> c" and bp: "list_all (\<lambda>c. 0 \<le> c) bp" using Cons.prems(1) by simp_all
  have v: "0 \<le> v" using c Cons.prems(2) assms(2) by (simp add: v_def)
  have digit: "0 \<le> digit" using v assms(1) by (simp add: digit_def pos_imp_zdiv_nonneg_iff)
  have r1: "js_rem v dB = v mod dB" using v assms(1) by (rule js_rem_nonneg)
  have step: "divide_pass sB dB (c # bp) q r = divide_pass sB dB bp q1 (v mod dB)"
    by (simp add: divide_pass_step v_def digit_def q1_def r1 [unfolded v_def])
  have can: "canonical q1"
    using Cons.prems(4) digit by (cases q) (auto simp add: q1_def canonical_def)
  have val: "digits_value sB q1 = digits_value sB q * sB + digit"
    by (auto simp add: q1_def digits_value_snoc digits_value_Nil)
  have rb: "0 \<le> v mod dB" "v mod dB < dB" using assms(1) by simp_all
  note IH = Cons.IH [OF bp rb can]
  have "(digits_value sB q1 * dB + v mod dB) = (digits_value sB q * dB + r) * sB + c"
  proof -
    have "digit * dB + v mod dB = v" by (simp add: digit_def)
    then have "digits_value sB q1 * dB + v mod dB = digits_value sB q * sB * dB + v"
      by (simp add: val algebra_simps)
    then show ?thesis by (simp add: v_def algebra_simps)
  qed
  then have "(digits_value sB q1 * dB + v mod dB) * sB ^ length bp + digits_value sB bp
      = (digits_value sB q * dB + r) * sB ^ length (c # bp) + digits_value sB (c # bp)"
    by (simp add: digits_value_Cons algebra_simps)
  with IH show ?case by (simp only: step)
qed

lemma divide_pass_div_mod:
  assumes "0 < dB" "0 \<le> sB" "list_all (\<lambda>c. 0 \<le> c) bp"
  shows "canonical (fst (divide_pass sB dB bp [] 0))"
    and "digits_value sB (fst (divide_pass sB dB bp [] 0)) = digits_value sB bp div dB"
    and "snd (divide_pass sB dB bp [] 0) = digits_value sB bp mod dB"
proof -
  have can: "canonical []" by (simp add: canonical_def)
  note dv = divide_pass_value [OF assms(1,2,3) _ assms(1) can, simplified]
  let ?q = "fst (divide_pass sB dB bp [] 0)" and ?r = "snd (divide_pass sB dB bp [] 0)"
  show "canonical ?q" using dv by simp
  have eq: "digits_value sB ?q * dB + ?r = digits_value sB bp" and r: "0 \<le> ?r" "?r < dB"
    using dv by (simp_all add: digits_value_Nil)
  have "digits_value sB bp div dB = digits_value sB ?q"
    using r assms(1) by (subst eq [symmetric]) (simp add: div_pos_pos_trivial)
  then show "digits_value sB ?q = digits_value sB bp div dB" by simp
  have "digits_value sB bp mod dB = ?r"
    using r assms(1) by (subst eq [symmetric]) (simp add: mod_pos_pos_trivial)
  then show "?r = digits_value sB bp mod dB" by simp
qed

lemma div_less_power:
  fixes a :: int
  assumes "0 < m"
  shows "a div m < b \<longleftrightarrow> a < b * m"
proof
  assume "a div m < b"
  then have "a div m + 1 \<le> b" by simp
  then have "(a div m + 1) * m \<le> b * m" using assms by (simp add: mult_right_mono)
  moreover have "a < (a div m + 1) * m"
  proof -
    have "a = a div m * m + a mod m" by simp
    moreover have "a mod m < m" using assms by simp
    ultimately have "a < a div m * m + m" by linarith
    then show ?thesis by (simp add: algebra_simps)
  qed
  ultimately show "a < b * m" by simp
next
  assume lt: "a < b * m"
  have "a div m * m \<le> a"
  proof -
    have "a = a div m * m + a mod m" by simp
    moreover have "0 \<le> a mod m" using assms by simp
    ultimately show ?thesis by linarith
  qed
  with lt have "a div m * m < b * m" by simp
  then show "a div m < b" using assms by (simp add: mult_less_cancel_right)
qed

lemma canonical_nonneg: "canonical q \<Longrightarrow> list_all (\<lambda>d. 0 \<le> d) q"
  by (simp add: canonical_def)

section \<open>The encoder on words with the high bit set\<close>

text \<open>\<open>fastEncodeBase62\<close> reads each group of four bytes with \<open><<\<close> and \<open>|\<close>, so a
  group whose first byte is \<open>0x80\<close> or more is a negative number. The division
  pass then computes \<open>Math.floor\<close> of a negative quotient and a negative remainder.
  A pass keeps the first entry of a quotient that has started, and a negative
  first entry of \<open>bp\<close> yields a negative first entry of the quotient: the
  quotient never becomes empty.\<close>

lemma divide_pass_keeps_hd:
  "q \<noteq> [] \<Longrightarrow> fst (divide_pass sB dB bp q r) \<noteq> [] \<and> hd (fst (divide_pass sB dB bp q r)) = hd q"
  by (induction bp arbitrary: q r) (simp_all add: divide_pass_step)
lemma divide_pass_negative_head:
  assumes "bp \<noteq> []" "hd bp < 0"
  shows "fst (divide_pass 4294967296 62 bp [] 0) \<noteq> [] \<and> hd (fst (divide_pass 4294967296 62 bp [] 0)) < 0"
proof -
  obtain c cs where bp: "bp = c # cs" using assms(1) by (cases bp) auto
  have c: "c < 0" using assms(2) bp by simp
  then have d: "c div 62 < 0" by simp
  then have "c div 62 \<noteq> 0" by simp
  then have step: "divide_pass 4294967296 62 bp [] 0 = divide_pass 4294967296 62 cs [c div 62] (js_rem c 62)"
    by (simp add: bp divide_pass_step)
  show ?thesis
    using divide_pass_keeps_hd [of "[c div 62]" 4294967296 62 cs "js_rem c 62"] d
    by (simp add: step)
qed
lemma encode_loop_never_returns:
  assumes "encode_loop bp n dst = Some s"
  shows "bp = [] \<or> 0 \<le> hd bp"
proof (rule encode_loop.raw_induct
    [where P = "\<lambda>bp n dst s. bp = [] \<or> 0 \<le> hd bp", OF _ assms])
  fix f :: "int list \<Rightarrow> int \<Rightarrow> byte list \<Rightarrow> jsstring option"
  fix bp n dst s
  assume IH: "\<And>bp n dst s. f bp n dst = Some s \<Longrightarrow> bp = [] \<or> 0 \<le> hd bp"
  assume eq: "(if bp = [] then Some (TextDecoder_decode (pad_head dst 0 n))
      else f (fst (divide_pass 4294967296 62 bp [] 0)) (n - 1)
             (store dst (n - 1)
                (to_uint8 (charCodeAt BASE62_CHARACTERS
                   (snd (divide_pass 4294967296 62 bp [] 0)))))) = Some s"
  show "bp = [] \<or> 0 \<le> hd bp"
  proof (rule ccontr)
    assume "\<not> (bp = [] \<or> 0 \<le> hd bp)"
    then have ne: "bp \<noteq> []" and neg: "hd bp < 0" by auto
    from eq ne have "f (fst (divide_pass 4294967296 62 bp [] 0)) (n - 1)
             (store dst (n - 1)
                (to_uint8 (charCodeAt BASE62_CHARACTERS
                   (snd (divide_pass 4294967296 62 bp [] 0))))) = Some s"
      by simp
    from IH [OF this] divide_pass_negative_head [OF ne neg] show False by auto
  qed
qed
lemma encode_loop_diverges: "bp \<noteq> [] \<Longrightarrow> hd bp < 0 \<Longrightarrow> encode_loop bp n dst = None"
  using encode_loop_never_returns [of bp n dst] by (cases "encode_loop bp n dst") auto

lemma be32_negative:
  assumes "bs \<noteq> []" "128 \<le> hd bs"
  shows "be32 bs 0 < 0"
proof -
  obtain b0 r where bs: "bs = b0 # r" using assms(1) by (cases bs) auto
  have b0: "128 \<le> b0" using assms(2) bs by simp
  have u: "128 \<le> uint b0" using b0 by (simp add: word_le_def)
  have ub: "uint b0 < 256" using uint_lt2p [of b0] by simp
  have "uint b0 div 2 ^ 7 = 1" using u ub by simp
  then have "bit (uint b0) 7" by (simp only: bit_iff_odd) simp
  then have "bit b0 7" by (simp add: bit_uint_iff)
  then have "bit (push_bit 24 (load32 bs 0) OR push_bit 16 (load32 bs (0 + 1))
           OR push_bit 8 (load32 bs (0 + 2)) OR load32 bs (0 + 3)) (LENGTH(32) - Suc 0)"
    by (simp add: bs load32_def bit_simps)
  then show ?thesis
    unfolding be32_def by (simp only: bit_last_iff)
qed

text \<open>So the encoder never returns for a buffer whose first byte is \<open>0x80\<close> or more.\<close>

lemma encodeBase62_high_bit_never_returns:
  assumes "bs \<noteq> []" "128 \<le> hd bs"
  shows "encodeBase62 bs = None"
  using be32_negative [OF assms]
  by (simp add: encodeBase62_def fastEncodeBase62_def encode_loop_diverges)

text \<open>When none of the five words is negative the loop does end: each pass divides
  the number by 62.\<close>

lemma encode_loop_canonical_returns:
  assumes "canonical bp"
  shows "\<exists>s. encode_loop bp n dst = Some s"
  using assms
proof (induction "nat (digits_value 4294967296 bp)" arbitrary: bp n dst rule: less_induct)
  case less
  show ?case
  proof (cases bp)
    case Nil
    then show ?thesis by (simp add: encode_loop_Nil)
  next
    case (Cons c cs)
    note dm = divide_pass_div_mod [of 62 4294967296 bp, OF _ _ canonical_nonneg [OF less.prems]]
    let ?q = "fst (divide_pass 4294967296 62 bp [] 0)"
    have can: "canonical ?q" using dm(1) by simp
    have val: "digits_value 4294967296 ?q = digits_value 4294967296 bp div 62" using dm(2) by simp
    have pos: "0 < digits_value 4294967296 bp"
      using canonical_value [OF less.prems, of 4294967296] Cons
        digits_value_nonneg [OF _ canonical_nonneg [OF less.prems], of 4294967296]
      by simp
    then have "digits_value 4294967296 bp div 62 < digits_value 4294967296 bp"
      by simp
    moreover have "0 \<le> digits_value 4294967296 bp div 62" using pos by simp
    ultimately have "nat (digits_value 4294967296 ?q) < nat (digits_value 4294967296 bp)"
      using val by simp
    from less.hyps [OF this can]
    show ?thesis unfolding Cons [symmetric]
      by (subst encode_loop.simps) (simp add: Cons)
  qed
qed

lemma encodeBase62_returns:
  assumes "list_all (\<lambda>i. 0 \<le> be32 src i) [0, 4, 8, 12, 16]"
  shows "\<exists>s. encodeBase62 src = Some s"
proof -
  let ?bp = "[be32 src 0, be32 src 4, be32 src 8, be32 src 12, be32 src 16]"
  have nn: "list_all (\<lambda>d. 0 \<le> d) ?bp" using assms by simp
  note dm = divide_pass_div_mod [of 62 4294967296 ?bp, OF _ _ nn]
  have can: "canonical (fst (divide_pass 4294967296 62 ?bp [] 0))" using dm(1) by simp
  show ?thesis
    unfolding encodeBase62_def fastEncodeBase62_def
    by (subst encode_loop.simps) (simp add: encode_loop_canonical_returns [OF can])
qed

text \<open>C8. The claim: for every 20-byte buffer the division loop of the encoder ends
  after a bounded number of passes, so \<open>encodeBase62\<close> is total. In the code the
  loop never ends for the identifier \<open>KSUID.Max\<close> (all bytes \<open>0xFF\<close>): its first
  word is \<open>-1\<close>, and \<open>toString\<close> does not return.\<close>

theorem C8_encode_Max_never_returns:
  "encodeBase62 (replicate 20 255) = None \<and> toString Max_KSUID = None"
  by (simp add: toString_def Max_KSUID_def BYTE_LENGTH_def TIMESTAMP_BYTE_LENGTH_def
        PAYLOAD_BYTE_LENGTH_def encodeBase62_def fastEncodeBase62_def
        encode_loop_diverges be32_def load32_def replicate_numeral)

text \<open>C1. The claim: \<open>decodeBase62 (encodeBase62 b) = b\<close> for every 20-byte buffer,
  and \<open>encodeBase62 (decodeBase62 s) = s\<close> for every 27-character string within
  the bounds. In the code, the buffer \<open>00 00 00 01 FF FF FF FF 00 \<dots> 00\<close> is encoded
  with its second word read as \<open>-1\<close>: the string decodes to
  \<open>00 00 00 00 FF FF FF FF 00 \<dots> 00\<close>. And the maximum string decodes to the
  all-\<open>0xFF\<close> buffer, whose encoding never returns.\<close>

theorem C1_roundtrip_fails:
  "encodeBase62 [0, 0, 0, 1, 255, 255, 255, 255, 0, 0, 0, 0, 0, 0, 0, 0, 0, 0, 0, 0]
     = Some (js_string ''000007n42DEh31NcFqNarHzK4J6'') \<and>
   decodeBase62 (js_string ''000007n42DEh31NcFqNarHzK4J6'')
     = Inr [0, 0, 0, 0, 255, 255, 255, 255, 0, 0, 0, 0, 0, 0, 0, 0, 0, 0, 0, 0] \<and>
   decodeBase62 MAX_STRING_ENCODED = Inr (replicate 20 255) \<and>
   encodeBase62 (replicate 20 255) = None"
proof -
  have "encodeBase62 [0, 0, 0, 1, 255, 255, 255, 255, 0, 0, 0, 0, 0, 0, 0, 0, 0, 0, 0, 0]
     = Some (js_string ''000007n42DEh31NcFqNarHzK4J6'')"
    by (simp add: enc_eval)
  moreover have "decodeBase62 (js_string ''000007n42DEh31NcFqNarHzK4J6'')
     = Inr [0, 0, 0, 0, 255, 255, 255, 255, 0, 0, 0, 0, 0, 0, 0, 0, 0, 0, 0, 0]"
    by (simp add: dec_eval)
  moreover have "decodeBase62 MAX_STRING_ENCODED = Inr (replicate 20 255)"
    by (simp add: dec_eval)
  moreover have "encodeBase62 (replicate 20 255) = None"
    by (simp add: encodeBase62_def fastEncodeBase62_def encode_loop_diverges be32_def
          load32_def replicate_numeral)
  ultimately show ?thesis by blast
qed

text \<open>C4. The claim: for all 20-byte buffers, the sign of the byte-wise comparison
  equals the sign of the lexicographic comparison of the encodings. In the code,
  the buffer ending in \<open>3E FF FF FF FF\<close> is above the one ending in
  \<open>3E 00 00 00 00\<close> byte-wise, and its encoding is below the other's.\<close>

theorem C4_order_not_preserved:
  "compare (KSUID [0, 0, 0, 0, 0, 0, 0, 0, 0, 0, 0, 0, 0, 0, 0, 62, 255, 255, 255, 255])
           (KSUID [0, 0, 0, 0, 0, 0, 0, 0, 0, 0, 0, 0, 0, 0, 0, 62, 0, 0, 0, 0]) = 255 \<and>
   encodeBase62 [0, 0, 0, 0, 0, 0, 0, 0, 0, 0, 0, 0, 0, 0, 0, 62, 255, 255, 255, 255]
     = Some (js_string ''000000000000000000004gfFC3'' @ [0]) \<and>
   encodeBase62 [0, 0, 0, 0, 0, 0, 0, 0, 0, 0, 0, 0, 0, 0, 0, 62, 0, 0, 0, 0]
     = Some (js_string ''000000000000000000004gfFC40'') \<and>
   str_less (js_string ''000000000000000000004gfFC3'' @ [0])
            (js_string ''000000000000000000004gfFC40'')"
proof -
  have "compare (KSUID [0, 0, 0, 0, 0, 0, 0, 0, 0, 0, 0, 0, 0, 0, 0, 62, 255, 255, 255, 255])
           (KSUID [0, 0, 0, 0, 0, 0, 0, 0, 0, 0, 0, 0, 0, 0, 0, 62, 0, 0, 0, 0]) = 255"
    by (simp add: compare_def getBytes_def BYTE_LENGTH_def TIMESTAMP_BYTE_LENGTH_def
          PAYLOAD_BYTE_LENGTH_def compare_loop_step compare_loop_done)
  moreover have "encodeBase62 [0, 0, 0, 0, 0, 0, 0, 0, 0, 0, 0, 0, 0, 0, 0, 62, 255, 255, 255, 255]
     = Some (js_string ''000000000000000000004gfFC3'' @ [0])"
    by (simp add: enc_eval)
  moreover have "encodeBase62 [0, 0, 0, 0, 0, 0, 0, 0, 0, 0, 0, 0, 0, 0, 0, 62, 0, 0, 0, 0]
     = Some (js_string ''000000000000000000004gfFC40'')"
    by (simp add: enc_eval)
  moreover have "str_less (js_string ''000000000000000000004gfFC3'' @ [0])
            (js_string ''000000000000000000004gfFC40'')"
    by (simp add: js_string_def)
  ultimately show ?thesis by blast
qed

text \<open>C10. The claim: \<open>equals a b\<close> is true exactly when the bytes of \<open>a\<close> and \<open>b\<close>
  are identical, that is, exactly when \<open>compare a b = 0\<close>. In the code, the two
  buffers ending in \<open>3E FF FF FF FF\<close> and \<open>3E FF FF FF FE\<close> have the same
  encoding (the last remainder is negative in both, and is stored as the code 0),
  so \<open>equals\<close> returns true for them while \<open>compare\<close> returns 1.\<close>

theorem C10_equals_on_different_bytes:
  "equals (KSUID [0, 0, 0, 0, 0, 0, 0, 0, 0, 0, 0, 0, 0, 0, 0, 62, 255, 255, 255, 255])
          (KSUID [0, 0, 0, 0, 0, 0, 0, 0, 0, 0, 0, 0, 0, 0, 0, 62, 255, 255, 255, 254]) = Some True \<and>
   compare (KSUID [0, 0, 0, 0, 0, 0, 0, 0, 0, 0, 0, 0, 0, 0, 0, 62, 255, 255, 255, 255])
           (KSUID [0, 0, 0, 0, 0, 0, 0, 0, 0, 0, 0, 0, 0, 0, 0, 62, 255, 255, 255, 254]) = 1"
proof -
  have "encodeBase62 [0, 0, 0, 0, 0, 0, 0, 0, 0, 0, 0, 0, 0, 0, 0, 62, 255, 255, 255, 255]
     = Some (js_string ''000000000000000000004gfFC3'' @ [0])"
    by (simp add: enc_eval)
  moreover have "encodeBase62 [0, 0, 0, 0, 0, 0, 0, 0, 0, 0, 0, 0, 0, 0, 0, 62, 255, 255, 255, 254]
     = Some (js_string ''000000000000000000004gfFC3'' @ [0])"
    by (simp add: enc_eval)
  ultimately have "equals (KSUID [0, 0, 0, 0, 0, 0, 0, 0, 0, 0, 0, 0, 0, 0, 0, 62, 255, 255, 255, 255])
          (KSUID [0, 0, 0, 0, 0, 0, 0, 0, 0, 0, 0, 0, 0, 0, 0, 62, 255, 255, 255, 254]) = Some True"
    by (simp add: equals_def toString_def)
  moreover have "compare (KSUID [0, 0, 0, 0, 0, 0, 0, 0, 0, 0, 0, 0, 0, 0, 0, 62, 255, 255, 255, 255])
           (KSUID [0, 0, 0, 0, 0, 0, 0, 0, 0, 0, 0, 0, 0, 0, 0, 62, 255, 255, 255, 254]) = 1"
    by (simp add: compare_def getBytes_def BYTE_LENGTH_def TIMESTAMP_BYTE_LENGTH_def
          PAYLOAD_BYTE_LENGTH_def compare_loop_step compare_loop_done)
  ultimately show ?thesis by blast
qed

section \<open>Successor and predecessor\<close>

lemma push_or_eq_add: "push_bit 8 (r::int) OR uint (b::byte) = r * 256 + uint b"
proof -
  have "push_bit 8 r AND uint b = 0"
    by (rule bit_eqI) (auto simp add: bit_simps dest: bit_imp_le_length)
  then have "push_bit 8 r + uint b = push_bit 8 r OR uint b"
    by (rule disjunctive_add_eq_or)
  then show ?thesis by (simp add: push_bit_eq_mult)
qed

lemma length_store [simp]: "length (store a i v) = length a"
  by (simp add: store_def)

lemma and_255: "(x::int) AND 255 = take_bit 8 x"
  by (simp add: take_bit_eq_mask mask_eq_exp_minus_1)

lemma word_of_int_take_bit8: "(word_of_int (take_bit 8 x) :: byte) = word_of_int x"
  by (rule bit_word_eqI) (simp add: bit_simps)

lemma bytesToBigInt_Nil: "bytesToBigInt [] = 0"
  by (simp add: bytesToBigInt_def)

lemma bytesToBigInt_snoc: "bytesToBigInt (bs @ [b]) = bytesToBigInt bs * 256 + uint b"
  by (simp add: bytesToBigInt_def push_or_eq_add)

lemma bytesToBigInt_bounds: "0 \<le> bytesToBigInt bs \<and> bytesToBigInt bs < 256 ^ length bs"
proof (induction bs rule: rev_induct)
  case Nil
  show ?case by (simp add: bytesToBigInt_Nil)
next
  case (snoc b bs)
  have "0 \<le> uint b" "uint b < 256" using uint_lt2p [of b] by simp_all
  with snoc show ?case by (simp add: bytesToBigInt_snoc)
qed

lemma length_be_bytes: "length (be_bytes len v) = len"
  by (simp add: be_bytes_def)

lemma be_bytes_Suc: "be_bytes (Suc len) v = be_bytes len (drop_bit 8 v) @ [word_of_int v]"
proof -
  have "8 * (Suc len - 1 - j) = 8 + 8 * (len - 1 - j)" if "j < len" for j
    using that by simp
  then have "map (\<lambda>j. word_of_int (drop_bit (8 * (Suc len - 1 - j)) v) :: byte) [0..<len] =
        map (\<lambda>j. word_of_int (drop_bit (8 * (len - 1 - j)) (drop_bit 8 v))) [0..<len]"
    by (intro map_cong refl) (simp add: add.commute)
  then show ?thesis
    by (simp add: be_bytes_def)
qed

lemma writeBigInt_eq:
  "offset + len \<le> length array \<Longrightarrow> i \<le> len \<Longrightarrow>
   writeBigInt array offset v len i =
     take (offset + i) array @
     map (\<lambda>j. word_of_int (drop_bit (8 * (len - 1 - j)) v)) [i..<len] @
     drop (offset + len) array"
proof (induction "len - i" arbitrary: i array)
  case 0
  then show ?case by (simp add: writeBigInt_done)
next
  case (Suc k)
  then have lt: "i < len" by simp
  let ?x = "to_uint8 (Some (drop_bit (8 * (len - 1 - i)) v AND 255))"
  let ?a = "store array (int (offset + i)) ?x"
  have a: "store array (int (offset + i)) y = array[offset + i := y]" for y
    using lt Suc.prems by (simp add: store_def del: of_nat_add)
  have x: "?x = word_of_int (drop_bit (8 * (len - 1 - i)) v)"
    by (simp add: to_uint8_def and_255 word_of_int_take_bit8)
  have "writeBigInt array offset v len i = writeBigInt ?a offset v len (i + 1)"
    using lt by (simp add: writeBigInt_step)
  also have "\<dots> = take (offset + (i + 1)) ?a @
     map (\<lambda>j. word_of_int (drop_bit (8 * (len - 1 - j)) v)) [i + 1..<len] @
     drop (offset + len) ?a"
    using Suc.hyps(2) Suc.prems lt by (intro Suc.hyps(1)) simp_all
  also have "\<dots> = take (offset + i) array @
     map (\<lambda>j. word_of_int (drop_bit (8 * (len - 1 - j)) v)) [i..<len] @
     drop (offset + len) array"
    unfolding x a using lt Suc.prems by (simp add: take_Suc_conv_app_nth upt_conv_Cons)
  finally show ?case .
qed

lemma bytesToBigInt_be_bytes: "bytesToBigInt (be_bytes len v) = v mod 256 ^ len"
proof (induction len arbitrary: v)
  case 0
  show ?case by (simp add: be_bytes_def bytesToBigInt_Nil)
next
  case (Suc len)
  have "bytesToBigInt (be_bytes (Suc len) v) = (v div 256) mod 256 ^ len * 256 + v mod 256"
    by (simp add: be_bytes_Suc bytesToBigInt_snoc Suc.IH drop_bit_eq_div uint_word_of_int)
  also have "\<dots> = v mod 256 ^ Suc len"
    using zmod_zmult2_eq [of "256 ^ len" v 256] by simp
  finally show ?case .
qed

lemma be_bytes_bytesToBigInt: "be_bytes (length bs) (bytesToBigInt bs) = bs"
proof (induction bs rule: rev_induct)
  case Nil
  show ?case by (simp add: be_bytes_def)
next
  case (snoc b bs)
  have "0 \<le> uint b" "uint b < 256" using uint_lt2p [of b] by simp_all
  then have "drop_bit 8 (bytesToBigInt bs * 256 + uint b) = bytesToBigInt bs"
    by (simp add: drop_bit_eq_div)
  moreover have "(word_of_int (bytesToBigInt bs * 256 + uint b) :: byte) = b"
  proof -
    have "take_bit 8 (bytesToBigInt bs * 256 + uint b) = uint b"
      using \<open>0 \<le> uint b\<close> \<open>uint b < 256\<close> by (simp add: take_bit_eq_mod)
    then have "(word_of_int (bytesToBigInt bs * 256 + uint b) :: byte) = word_of_int (uint b)"
      using word_of_int_take_bit8 [of "bytesToBigInt bs * 256 + uint b"] by simp
    then show ?thesis by simp
  qed
  ultimately show ?case
    by (simp add: be_bytes_Suc bytesToBigInt_snoc snoc.IH)
qed

lemma be_bytes_mod: "be_bytes len (v mod 256 ^ len) = be_bytes len v"
  using be_bytes_bytesToBigInt [of "be_bytes len v"]
  by (simp add: length_be_bytes bytesToBigInt_be_bytes)

lemma w255: "(255 :: 32 word) = mask 8"
  by (simp add: mask_eq_exp_minus_1)

lemma byte_of_be32:
  fixes b0 b1 b2 b3 :: byte
  defines "w \<equiv> (push_bit 24 (ucast b0) OR push_bit 16 (ucast b1) OR push_bit 8 (ucast b2) OR ucast b3 :: 32 word)"
  shows "byte_of (sint w) 24 = b0" "byte_of (sint w) 16 = b1" "byte_of (sint w) 8 = b2" "byte_of (sint w) 0 = b3"
  unfolding byte_of_def w_def w255
  by (rule bit_word_eqI; auto simp add: bit_simps dest: bit_imp_le_length)+

lemma be32_bytes:
  assumes "4 \<le> length bs"
  shows "[byte_of (be32 bs 0) 24, byte_of (be32 bs 0) 16, byte_of (be32 bs 0) 8, byte_of (be32 bs 0) 0] = take 4 bs"
proof -
  obtain b0 b1 b2 b3 rest where bs: "bs = b0 # b1 # b2 # b3 # rest"
    using assms by (cases bs; simp; rename_tac a as; case_tac as; simp; rename_tac b bs'; case_tac bs'; simp;
      rename_tac c cs; case_tac cs; simp)
  show ?thesis
    by (simp add: bs be32_def load32_def byte_of_be32)
qed

lemma toKSUID_eq:
  "toKSUID (Uint128 a b) ts =
     [byte_of ts 24, byte_of ts 16, byte_of ts 8, byte_of ts 0] @ be_bytes 8 a @ be_bytes 8 b"
proof -
  let ?h = "[byte_of ts 24, byte_of ts 16, byte_of ts 8, byte_of ts 0]"
  have s: "store (store (store (store (replicate 20 0) 0 (byte_of ts 24))
             1 (byte_of ts 16)) 2 (byte_of ts 8)) 3 (byte_of ts 0) = ?h @ replicate 16 0"
    by (simp add: store_def replicate_numeral list_update_Cons_numeral)
  have w1: "writeBigInt (?h @ replicate 16 0) 4 a 8 0 = ?h @ be_bytes 8 a @ replicate 8 0"
    by (subst writeBigInt_eq) (simp_all add: be_bytes_def)
  have w2: "writeBigInt (?h @ be_bytes 8 a @ replicate 8 0) 12 b 8 0 = ?h @ be_bytes 8 a @ be_bytes 8 b"
    by (subst writeBigInt_eq) (simp_all add: be_bytes_def)
  show ?thesis
    by (simp only: toKSUID_def uint128.sel s w1 w2)
qed

lemma uint128Payload_eq:
  assumes "length t = 4" "length A = 8"
  shows "uint128Payload (t @ A @ B) = Uint128 (bytesToBigInt A) (bytesToBigInt (take 8 B))"
  using assms
  by (simp add: uint128Payload_def fromPayload_def slice_from_def slice_def TIMESTAMP_BYTE_LENGTH_def)

lemma valid_split:
  assumes "valid x"
  shows "bytes x = take 4 (bytes x) @ take 8 (drop 4 (bytes x)) @ drop 12 (bytes x)"
    and "length (take 4 (bytes x)) = 4"
    and "length (take 8 (drop 4 (bytes x))) = 8"
    and "length (drop 12 (bytes x)) = 8"
proof -
  have len: "length (bytes x) = 20"
    using assms by (simp add: valid_def BYTE_LENGTH_def TIMESTAMP_BYTE_LENGTH_def PAYLOAD_BYTE_LENGTH_def)
  have "take 8 (drop 4 (bytes x)) @ drop 12 (bytes x) = drop 4 (bytes x)"
    using append_take_drop_id [of 8 "drop 4 (bytes x)"] by simp
  then show "bytes x = take 4 (bytes x) @ take 8 (drop 4 (bytes x)) @ drop 12 (bytes x)"
    by simp
  show "length (take 4 (bytes x)) = 4" "length (take 8 (drop 4 (bytes x))) = 8"
    "length (drop 12 (bytes x)) = 8"
    using len by simp_all
qed

lemma payload_halves:
  assumes "valid x"
  shows "uint128Payload (bytes x) = Uint128 (hi64 x) (lo64 x)"
    and "0 \<le> hi64 x" "hi64 x < 2 ^ 64" "0 \<le> lo64 x" "lo64 x < 2 ^ 64"
proof -
  note sp = valid_split [OF assms]
  have "uint128Payload (bytes x) =
      uint128Payload (take 4 (bytes x) @ take 8 (drop 4 (bytes x)) @ drop 12 (bytes x))"
    using sp(1) by simp
  also have "\<dots> = Uint128 (hi64 x) (bytesToBigInt (take 8 (drop 12 (bytes x))))"
    unfolding hi64_def by (rule uint128Payload_eq) (rule sp)+
  also have "take 8 (drop 12 (bytes x)) = drop 12 (bytes x)"
    using sp(4) by simp
  finally show "uint128Payload (bytes x) = Uint128 (hi64 x) (lo64 x)"
    by (simp add: lo64_def)
  show "0 \<le> hi64 x" "hi64 x < 2 ^ 64"
    using bytesToBigInt_bounds [of "take 8 (drop 4 (bytes x))"] sp(3) by (simp_all add: hi64_def)
  show "0 \<le> lo64 x" "lo64 x < 2 ^ 64"
    using bytesToBigInt_bounds [of "drop 12 (bytes x)"] sp(4) by (simp_all add: lo64_def)
qed

text \<open>What \<open>next\<close> and \<open>prev\<close> compute: the timestamp bytes are kept, and the two
  halves of the payload are written back after the increment or the decrement.\<close>

lemma next_eq:
  assumes "valid x"
  shows "next x = Inr (KSUID (take 4 (bytes x) @
            (if lo64 x = 2 ^ 64 - 1 then be_bytes 8 (hi64 x + 1) @ be_bytes 8 0
             else be_bytes 8 (hi64 x) @ be_bytes 8 (lo64 x + 1))))"
proof -
  note ph = payload_halves [OF assms]
  have len4: "4 \<le> length (bytes x)"
    using assms by (simp add: valid_def BYTE_LENGTH_def TIMESTAMP_BYTE_LENGTH_def PAYLOAD_BYTE_LENGTH_def)
  have ts: "toKSUID (Uint128 a b) (getTimestamp x) = take 4 (bytes x) @ be_bytes 8 a @ be_bytes 8 b" for a b
    using be32_bytes [OF len4] by (simp add: toKSUID_eq getTimestamp_def)
  have inc: "Uint128_increment (Uint128 (hi64 x) (lo64 x)) =
      (if lo64 x = 2 ^ 64 - 1 then Uint128 (hi64 x + 1) 0 else Uint128 (hi64 x) (lo64 x + 1))"
    using ph(5) by (simp add: Uint128_increment_def)
  have nz: "\<not> Uint128_equals (Uint128_increment (Uint128 (hi64 x) (lo64 x))) Uint128_ZERO"
    using ph(2) ph(4) by (simp add: inc Uint128_equals_def Uint128_ZERO_def)
  have "next x = new_KSUID (toKSUID (Uint128_increment (Uint128 (hi64 x) (lo64 x))) (getTimestamp x))"
    using nz by (simp add: next_def ph(1))
  also have "\<dots> = Inr (KSUID (take 4 (bytes x) @
            (if lo64 x = 2 ^ 64 - 1 then be_bytes 8 (hi64 x + 1) @ be_bytes 8 0
             else be_bytes 8 (hi64 x) @ be_bytes 8 (lo64 x + 1))))"
    using len4 by (simp add: inc ts new_KSUID_def length_be_bytes BYTE_LENGTH_def
        TIMESTAMP_BYTE_LENGTH_def PAYLOAD_BYTE_LENGTH_def)
  finally show ?thesis .
qed

lemma prev_eq:
  assumes "valid x"
  shows "prev x = Inr (KSUID (take 4 (bytes x) @
            (if lo64 x = 0 then be_bytes 8 (hi64 x - 1) @ be_bytes 8 (2 ^ 64 - 1)
             else be_bytes 8 (hi64 x) @ be_bytes 8 (lo64 x - 1))))"
proof -
  note ph = payload_halves [OF assms]
  have len4: "4 \<le> length (bytes x)"
    using assms by (simp add: valid_def BYTE_LENGTH_def TIMESTAMP_BYTE_LENGTH_def PAYLOAD_BYTE_LENGTH_def)
  have ts: "toKSUID (Uint128 a b) (getTimestamp x) = take 4 (bytes x) @ be_bytes 8 a @ be_bytes 8 b" for a b
    using be32_bytes [OF len4] by (simp add: toKSUID_eq getTimestamp_def)
  have dec: "Uint128_subtract (Uint128 (hi64 x) (lo64 x)) Uint128_ONE =
      (if lo64 x = 0 then Uint128 (hi64 x - 1) (2 ^ 64 - 1) else Uint128 (hi64 x) (lo64 x - 1))"
    using ph(4) by (simp add: Uint128_subtract_def Uint128_ONE_def)
  have nm: "\<not> Uint128_equals (Uint128_subtract (Uint128 (hi64 x) (lo64 x)) Uint128_ONE) Uint128_MAX"
    using ph(3) ph(5) by (simp add: dec Uint128_equals_def Uint128_MAX_def)
  have "prev x = new_KSUID (toKSUID (Uint128_subtract (Uint128 (hi64 x) (lo64 x)) Uint128_ONE) (getTimestamp x))"
    using nm by (simp add: prev_def ph(1))
  also have "\<dots> = Inr (KSUID (take 4 (bytes x) @
            (if lo64 x = 0 then be_bytes 8 (hi64 x - 1) @ be_bytes 8 (2 ^ 64 - 1)
             else be_bytes 8 (hi64 x) @ be_bytes 8 (lo64 x - 1))))"
    using len4 by (simp add: dec ts new_KSUID_def length_be_bytes BYTE_LENGTH_def
        TIMESTAMP_BYTE_LENGTH_def PAYLOAD_BYTE_LENGTH_def)
  finally show ?thesis .
qed

lemma rebuild_props:
  assumes "valid x"
  shows "valid (rebuild x a b)"
    and "hi64 (rebuild x a b) = a mod 2 ^ 64"
    and "lo64 (rebuild x a b) = b mod 2 ^ 64"
    and "rebuild (rebuild x a b) c d = rebuild x c d"
proof -
  have len4: "length (take 4 (bytes x)) = 4"
    using valid_split(2) [OF assms] .
  show "valid (rebuild x a b)"
    using len4 by (simp add: rebuild_def valid_def length_be_bytes BYTE_LENGTH_def
        TIMESTAMP_BYTE_LENGTH_def PAYLOAD_BYTE_LENGTH_def)
  show "hi64 (rebuild x a b) = a mod 2 ^ 64"
    using len4 bytesToBigInt_be_bytes [of 8 a]
    by (simp add: rebuild_def hi64_def length_be_bytes)
  show "lo64 (rebuild x a b) = b mod 2 ^ 64"
    using len4 bytesToBigInt_be_bytes [of 8 b]
    by (simp add: rebuild_def lo64_def length_be_bytes)
  show "rebuild (rebuild x a b) c d = rebuild x c d"
    using len4 by (simp add: rebuild_def)
qed

lemma rebuild_id:
  assumes "valid x" "a mod 2 ^ 64 = hi64 x" "b mod 2 ^ 64 = lo64 x"
  shows "rebuild x a b = x"
proof -
  note sp = valid_split [OF assms(1)]
  have "be_bytes 8 a = be_bytes 8 (hi64 x)"
    using be_bytes_mod [of 8 a] assms(2) by simp
  also have "\<dots> = take 8 (drop 4 (bytes x))"
    using be_bytes_bytesToBigInt [of "take 8 (drop 4 (bytes x))"] sp(3) by (simp add: hi64_def)
  finally have A: "be_bytes 8 a = take 8 (drop 4 (bytes x))" .
  have "be_bytes 8 b = be_bytes 8 (lo64 x)"
    using be_bytes_mod [of 8 b] assms(3) by simp
  also have "\<dots> = drop 12 (bytes x)"
    using be_bytes_bytesToBigInt [of "drop 12 (bytes x)"] sp(4) by (simp add: lo64_def)
  finally have B: "be_bytes 8 b = drop 12 (bytes x)" .
  have "rebuild x a b = KSUID (bytes x)"
    unfolding rebuild_def A B using sp(1) by simp
  then show ?thesis by simp
qed

lemma next_rebuild:
  assumes "valid x"
  shows "next x = Inr (if lo64 x = 2 ^ 64 - 1 then rebuild x (hi64 x + 1) 0
                       else rebuild x (hi64 x) (lo64 x + 1))"
  by (simp add: next_eq [OF assms] rebuild_def)

lemma prev_rebuild:
  assumes "valid x"
  shows "prev x = Inr (if lo64 x = 0 then rebuild x (hi64 x - 1) (2 ^ 64 - 1)
                       else rebuild x (hi64 x) (lo64 x - 1))"
  by (simp add: prev_eq [OF assms] rebuild_def)

lemma prev_next:
  assumes "valid x"
  shows "\<exists>y. next x = Inr y \<and> valid y \<and> prev y = Inr x"
proof -
  note ph = payload_halves [OF assms]
  show ?thesis
  proof (cases "lo64 x = 2 ^ 64 - 1")
    case True
    let ?y = "rebuild x (hi64 x + 1) 0"
    have y: "next x = Inr ?y" using True by (simp add: next_rebuild [OF assms])
    have v: "valid ?y" by (rule rebuild_props(1) [OF assms])
    have lo: "lo64 ?y = 0" by (simp add: rebuild_props(3) [OF assms])
    have hi: "hi64 ?y = (hi64 x + 1) mod 2 ^ 64" by (simp add: rebuild_props(2) [OF assms])
    have "prev ?y = Inr (rebuild x (hi64 ?y - 1) (2 ^ 64 - 1))"
      using lo by (simp add: prev_rebuild [OF v] rebuild_props(4) [OF assms])
    moreover have "(hi64 ?y - 1) mod 2 ^ 64 = hi64 x"
      using ph(2) ph(3) by (simp add: hi mod_diff_left_eq)
    moreover have "(2 ^ 64 - 1) mod 2 ^ 64 = lo64 x"
      using True by simp
    ultimately have "prev ?y = Inr x"
      using rebuild_id [OF assms, of "hi64 ?y - 1" "2 ^ 64 - 1"] by simp
    with y v show ?thesis by blast
  next
    case False
    let ?y = "rebuild x (hi64 x) (lo64 x + 1)"
    have y: "next x = Inr ?y" using False by (simp add: next_rebuild [OF assms])
    have v: "valid ?y" by (rule rebuild_props(1) [OF assms])
    have lo: "lo64 ?y = lo64 x + 1"
      using False ph(4) ph(5) by (simp add: rebuild_props(3) [OF assms])
    have hi: "hi64 ?y = hi64 x"
      using ph(2) ph(3) by (simp add: rebuild_props(2) [OF assms])
    have "prev ?y = Inr (rebuild x (hi64 x) (lo64 x))"
      using lo hi ph(4) by (simp add: prev_rebuild [OF v] rebuild_props(4) [OF assms])
    moreover have "rebuild x (hi64 x) (lo64 x) = x"
      using ph by (intro rebuild_id [OF assms]) simp_all
    ultimately show ?thesis using y v by simp
  qed
qed

lemma next_prev:
  assumes "valid x"
  shows "\<exists>z. prev x = Inr z \<and> valid z \<and> next z = Inr x"
proof -
  note ph = payload_halves [OF assms]
  show ?thesis
  proof (cases "lo64 x = 0")
    case True
    let ?z = "rebuild x (hi64 x - 1) (2 ^ 64 - 1)"
    have z: "prev x = Inr ?z" using True by (simp add: prev_rebuild [OF assms])
    have v: "valid ?z" by (rule rebuild_props(1) [OF assms])
    have lo: "lo64 ?z = 2 ^ 64 - 1" by (simp add: rebuild_props(3) [OF assms])
    have hi: "hi64 ?z = (hi64 x - 1) mod 2 ^ 64" by (simp add: rebuild_props(2) [OF assms])
    have "next ?z = Inr (rebuild x (hi64 ?z + 1) 0)"
      using lo next_rebuild [OF v] by (simp add: rebuild_props(4) [OF assms])
    moreover have "(hi64 ?z + 1) mod 2 ^ 64 = hi64 x"
      using ph(2) ph(3) hi by (simp add: mod_add_left_eq)
    moreover have "0 mod 2 ^ 64 = lo64 x"
      using True by simp
    ultimately have "next ?z = Inr x"
      using rebuild_id [OF assms, of "hi64 ?z + 1" 0] by simp
    with z v show ?thesis by blast
  next
    case False
    let ?z = "rebuild x (hi64 x) (lo64 x - 1)"
    have z: "prev x = Inr ?z" using False by (simp add: prev_rebuild [OF assms])
    have v: "valid ?z" by (rule rebuild_props(1) [OF assms])
    have lo: "lo64 ?z = lo64 x - 1"
      using False ph(4) ph(5) by (simp add: rebuild_props(3) [OF assms])
    have hi: "hi64 ?z = hi64 x"
      using ph(2) ph(3) by (simp add: rebuild_props(2) [OF assms])
    have "next ?z = Inr (rebuild x (hi64 x) (lo64 x))"
      using lo hi ph(5) by (simp add: next_rebuild [OF v] rebuild_props(4) [OF assms])
    moreover have "rebuild x (hi64 x) (lo64 x) = x"
      using ph by (intro rebuild_id [OF assms]) simp_all
    ultimately show ?thesis using z v by simp
  qed
qed

text \<open>\<open>equals\<close> of an identifier with itself never answers false (it answers true
  when \<open>toString\<close> returns).\<close>

lemma equals_same: "equals x x \<noteq> Some False"
  by (simp add: equals_def split: option.splits)

text \<open>C3. For every identifier \<open>x\<close>, \<open>x.next().prev()\<close> is \<open>x\<close> and \<open>x.prev().next()\<close> is
  \<open>x\<close>: both calls return, and the bytes of the result are the bytes of \<open>x\<close>. This
  holds across the payload overflow and underflow too, where the code wraps the
  payload and keeps the timestamp in both directions.\<close>

theorem C3_next_prev_inverse:
  assumes "valid x"
  shows "(\<exists>y. next x = Inr y \<and> prev y = Inr x) \<and> (\<exists>z. prev x = Inr z \<and> next z = Inr x)"
  using prev_next [OF assms] next_prev [OF assms] by blast

theorem C3_next_prev_inverse_witness:
  "valid (KSUID [0, 0, 0, 5, 255, 255, 255, 255, 255, 255, 255, 255,
                 255, 255, 255, 255, 255, 255, 255, 255]) \<and>
   (\<exists>y. next (KSUID [0, 0, 0, 5, 255, 255, 255, 255, 255, 255, 255, 255,
                      255, 255, 255, 255, 255, 255, 255, 255]) = Inr y \<and>
        prev y = Inr (KSUID [0, 0, 0, 5, 255, 255, 255, 255, 255, 255, 255, 255,
                             255, 255, 255, 255, 255, 255, 255, 255])) \<and>
   (\<exists>z. prev (KSUID [0, 0, 0, 5, 255, 255, 255, 255, 255, 255, 255, 255,
                      255, 255, 255, 255, 255, 255, 255, 255]) = Inr z \<and>
        next z = Inr (KSUID [0, 0, 0, 5, 255, 255, 255, 255, 255, 255, 255, 255,
                             255, 255, 255, 255, 255, 255, 255, 255]))"
proof -
  have v: "valid (KSUID [0, 0, 0, 5, 255, 255, 255, 255, 255, 255, 255, 255,
                 255, 255, 255, 255, 255, 255, 255, 255])"
    by (simp add: valid_def BYTE_LENGTH_def TIMESTAMP_BYTE_LENGTH_def PAYLOAD_BYTE_LENGTH_def)
  show ?thesis
    using v C3_next_prev_inverse [OF v] by simp
qed

text \<open>C2. The claim: \<open>compare x (next x) < 0\<close> and \<open>compare (prev x) x < 0\<close> for every
  identifier, the timestamp being incremented when the payload wraps. In the
  code, \<open>increment\<close> of the all-ones payload has the high field \<open>2^64\<close>, so the test
  \<open>equals ZERO\<close> fails and the timestamp is kept: \<open>next\<close> of
  \<open>00 00 00 00 FF \<dots> FF\<close> is the all-zero identifier, which is below it; and
  \<open>prev\<close> of \<open>00 00 00 01 00 \<dots> 00\<close> is \<open>00 00 00 01 FF \<dots> FF\<close>, which is above it.\<close>

theorem C2_next_not_increasing:
  "next (KSUID [0, 0, 0, 0, 255, 255, 255, 255, 255, 255, 255, 255,
                255, 255, 255, 255, 255, 255, 255, 255]) = Inr (KSUID (replicate 20 0)) \<and>
   compare (KSUID [0, 0, 0, 0, 255, 255, 255, 255, 255, 255, 255, 255,
                   255, 255, 255, 255, 255, 255, 255, 255]) (KSUID (replicate 20 0)) = 255 \<and>
   prev (KSUID [0, 0, 0, 1, 0, 0, 0, 0, 0, 0, 0, 0, 0, 0, 0, 0, 0, 0, 0, 0])
     = Inr (KSUID [0, 0, 0, 1, 255, 255, 255, 255, 255, 255, 255, 255,
                   255, 255, 255, 255, 255, 255, 255, 255]) \<and>
   compare (KSUID [0, 0, 0, 1, 255, 255, 255, 255, 255, 255, 255, 255,
                   255, 255, 255, 255, 255, 255, 255, 255])
           (KSUID [0, 0, 0, 1, 0, 0, 0, 0, 0, 0, 0, 0, 0, 0, 0, 0, 0, 0, 0, 0]) = 255"
proof -
  have "next (KSUID [0, 0, 0, 0, 255, 255, 255, 255, 255, 255, 255, 255,
                255, 255, 255, 255, 255, 255, 255, 255]) = Inr (KSUID (replicate 20 0))"
    by (simp add: u128_eval ksuid_eval)
  moreover have "compare (KSUID [0, 0, 0, 0, 255, 255, 255, 255, 255, 255, 255, 255,
                   255, 255, 255, 255, 255, 255, 255, 255]) (KSUID (replicate 20 0)) = 255"
    by (simp add: u128_eval ksuid_eval)
  moreover have "prev (KSUID [0, 0, 0, 1, 0, 0, 0, 0, 0, 0, 0, 0, 0, 0, 0, 0, 0, 0, 0, 0])
     = Inr (KSUID [0, 0, 0, 1, 255, 255, 255, 255, 255, 255, 255, 255,
                   255, 255, 255, 255, 255, 255, 255, 255])"
    by (simp add: u128_eval ksuid_eval)
  moreover have "compare (KSUID [0, 0, 0, 1, 255, 255, 255, 255, 255, 255, 255, 255,
                   255, 255, 255, 255, 255, 255, 255, 255])
           (KSUID [0, 0, 0, 1, 0, 0, 0, 0, 0, 0, 0, 0, 0, 0, 0, 0, 0, 0, 0, 0]) = 255"
    by (simp add: u128_eval ksuid_eval)
  ultimately show ?thesis by blast
qed

section \<open>Parsing\<close>

lemma decode_loop_ok:
  assumes "canonical bp"
  shows "fst (decode_loop bp (4 * k) dst) \<longleftrightarrow> digits_value 62 bp < 4294967296 ^ k"
  using assms
proof (induction k arbitrary: bp dst)
  case 0
  show ?case
  proof (cases "bp = []")
    case True
    then show ?thesis by (simp add: decode_loop_Nil digits_value_Nil)
  next
    case False
    then have "digits_value 62 bp \<noteq> 0"
      using canonical_value [OF 0, of 62] by simp
    moreover have "0 \<le> digits_value 62 bp"
      using canonical_nonneg [OF 0] by (intro digits_value_nonneg) simp_all
    moreover obtain c cs where "bp = c # cs" using False by (cases bp) auto
    ultimately show ?thesis by (simp add: decode_loop_Cons)
  qed
next
  case (Suc k)
  show ?case
  proof (cases "bp = []")
    case True
    then show ?thesis by (simp add: decode_loop_Nil digits_value_Nil)
  next
    case False
    then obtain c cs where bp: "bp = c # cs" by (cases bp) auto
    note dm = divide_pass_div_mod [of 4294967296 62 bp, OF _ _ canonical_nonneg [OF Suc.prems]]
    have can: "canonical (fst (divide_pass 62 4294967296 bp [] 0))" using dm(1) by simp
    have val: "digits_value 62 (fst (divide_pass 62 4294967296 bp [] 0)) = digits_value 62 bp div 4294967296"
      using dm(2) by simp
    have "decode_loop bp (4 * Suc k) dst =
        decode_loop (fst (divide_pass 62 4294967296 bp [] 0)) (4 * k)
          (store_remainder dst (int (4 * Suc k)) (snd (divide_pass 62 4294967296 bp [] 0)))"
      unfolding bp by (subst decode_loop_Cons) simp
    then have "fst (decode_loop bp (4 * Suc k) dst) \<longleftrightarrow>
        digits_value 62 bp div 4294967296 < 4294967296 ^ k"
      using Suc.IH [OF can] by (simp add: val)
    also have "\<dots> \<longleftrightarrow> digits_value 62 bp < 4294967296 ^ Suc k"
      by (subst div_less_power) (simp_all add: mult.commute)
    finally show ?thesis .
  qed
qed

lemma length_store_remainder [simp]: "length (store_remainder dst n r) = length dst"
  by (simp add: store_remainder_def)

lemma length_zero_head [simp]: "length (zero_head dst i n) = length dst"
proof (induction "n - i" arbitrary: i dst)
  case 0
  then show ?case by (simp add: zero_head_done)
next
  case (Suc d)
  then have lt: "i < n" by simp
  have "length (zero_head (store dst (int i) 0) (i + 1) n) = length (store dst (int i) 0)"
    using Suc.hyps(2) by (intro Suc.hyps(1)) simp
  then show ?case using lt by (simp add: zero_head_step)
qed

lemma length_decode_loop [simp]: "length (snd (decode_loop bp n dst)) = length dst"
proof (induction bp n dst rule: decode_loop.induct)
  case (1 bp n dst)
  show ?case
  proof (cases "bp = []")
    case True
    then show ?thesis by (simp add: decode_loop_Nil)
  next
    case False
    then obtain c cs where bp: "bp = c # cs" by (cases bp) auto
    show ?thesis
    proof (cases "n < 4")
      case True
      then show ?thesis by (simp add: bp decode_loop_Cons)
    next
      case nlt: False
      from 1 [OF False nlt] nlt show ?thesis
        by (simp add: bp decode_loop_Cons)
    qed
  qed
qed

lemma decode_loop_first_pass:
  assumes "bp \<noteq> []" "list_all (\<lambda>d. 0 \<le> d) bp"
  shows "fst (decode_loop bp 20 dst) \<longleftrightarrow> digits_value 62 bp < 2 ^ 160"
proof -
  obtain c cs where bp: "bp = c # cs" using assms(1) by (cases bp) auto
  note dm = divide_pass_div_mod [of 4294967296 62 bp, OF _ _ assms(2)]
  have can: "canonical (fst (divide_pass 62 4294967296 bp [] 0))" using dm(1) by simp
  have val: "digits_value 62 (fst (divide_pass 62 4294967296 bp [] 0)) = digits_value 62 bp div 4294967296"
    using dm(2) by simp
  have "decode_loop bp 20 dst =
      decode_loop (fst (divide_pass 62 4294967296 bp [] 0)) (4 * 4)
        (store_remainder dst 20 (snd (divide_pass 62 4294967296 bp [] 0)))"
    unfolding bp by (subst decode_loop_Cons) simp
  then have "fst (decode_loop bp 20 dst) \<longleftrightarrow> digits_value 62 bp div 4294967296 < 4294967296 ^ 4"
    using decode_loop_ok [OF can, of 4] by (simp only: val)
  also have "\<dots> \<longleftrightarrow> digits_value 62 bp < 4294967296 ^ 4 * 4294967296"
    by (rule div_less_power) simp
  finally show ?thesis by simp
qed

lemma length_utf8 [simp]:
  "length (utf8_2 u) = 2" "length (utf8_3 u) = 3" "length (utf8_4 u) = 4"
  by (simp_all add: utf8_2_def utf8_3_def utf8_4_def)

lemma TextEncoder_encode_length:
  "length s \<le> length (TextEncoder_encode s) \<and>
   (length (TextEncoder_encode s) = length s \<longleftrightarrow> is_ascii s)"
  by (induction s rule: TextEncoder_encode.induct) (auto simp add: is_ascii_def)

lemma TextEncoder_encode_ascii:
  "is_ascii s \<Longrightarrow> TextEncoder_encode s = map of_nat s"
  by (induction s rule: TextEncoder_encode.induct) (simp_all add: is_ascii_def)

lemma base62_parts_ascii:
  assumes "is_ascii s"
  shows "base62_parts (map of_nat s) = map (\<lambda>u. uint (to_uint8 (Some (base62Value (int u))))) s"
proof -
  have "uint (of_nat u :: byte) = int u" if "u \<in> set s" for u
  proof -
    have "u < 128" using assms that by (simp add: is_ascii_def list_all_iff)
    then show ?thesis by (simp add: uint_nat unat_of_nat)
  qed
  then show ?thesis by (simp add: base62_parts_def)
qed

lemma base62_parts_nonneg: "list_all (\<lambda>d. 0 \<le> d) (base62_parts src)"
  by (simp add: base62_parts_def list_all_iff)

lemma decodeBase62_alt:
  "decodeBase62 str =
     (if fst (fastDecodeBase62 (replicate BYTE_LENGTH 0) (TextEncoder_encode str))
      then Inr (snd (fastDecodeBase62 (replicate BYTE_LENGTH 0) (TextEncoder_encode str)))
      else Inl Base62DecodeFailed)"
  by (simp add: decodeBase62_def split_beta)

lemma decodeBase62_fails_iff:
  assumes "length s = 27"
  shows "isl (decodeBase62 s) \<longleftrightarrow> \<not> is_ascii s \<or> 2 ^ 160 \<le> base62_number s"
proof (cases "is_ascii s")
  case False
  then have "length (TextEncoder_encode s) \<noteq> 27"
    using TextEncoder_encode_length [of s] assms by simp
  then show ?thesis
    using False by (simp add: decodeBase62_alt fastDecodeBase62_def STRING_ENCODED_LENGTH_def)
next
  case True
  have enc: "TextEncoder_encode s = map of_nat s" using True by (rule TextEncoder_encode_ascii)
  have ne: "base62_parts (map of_nat s) \<noteq> []" using assms by (auto simp add: base62_parts_def)
  have "fst (decode_loop (base62_parts (map of_nat s)) 20 dst) \<longleftrightarrow> base62_number s < 2 ^ 160" for dst
    using decode_loop_first_pass [OF ne base62_parts_nonneg, of dst]
    by (simp add: base62_number_def base62_parts_ascii [OF True])
  then have "fst (fastDecodeBase62 (replicate BYTE_LENGTH 0) (TextEncoder_encode s))
      \<longleftrightarrow> base62_number s < 2 ^ 160"
    using assms by (simp add: fastDecodeBase62_def STRING_ENCODED_LENGTH_def enc BYTE_LENGTH_def
        TIMESTAMP_BYTE_LENGTH_def PAYLOAD_BYTE_LENGTH_def)
  then show ?thesis
    using True by (simp add: decodeBase62_alt not_less)
qed

lemma decodeBase62_length:
  assumes "decodeBase62 s = Inr bs"
  shows "length bs = 20"
proof -
  have "length (snd (fastDecodeBase62 (replicate 20 0) src)) = 20" for src
    by (simp add: fastDecodeBase62_def)
  then show ?thesis
    using assms by (auto simp add: decodeBase62_alt BYTE_LENGTH_def TIMESTAMP_BYTE_LENGTH_def
        PAYLOAD_BYTE_LENGTH_def split: if_splits)
qed

text \<open>C7. The claim: \<open>parse s\<close> fails exactly when \<open>s\<close> is not 27 characters long, or
  has a character outside the alphabet, or decodes to a value above the maximum;
  in particular every 27-character string with a character outside the alphabet
  is rejected. In the code nothing checks the alphabet: \<open>base62Value\<close> gives every
  character a digit. The string of 25 zeros, a colon and a zero is within the
  lexicographic bounds and is parsed, to the identifier of value \<open>253 * 62\<close>.\<close>

theorem C7_colon_is_parsed:
  "length (js_string ''0000000000000000000000000:0'') = 27 \<and>
   58 \<in> set (js_string ''0000000000000000000000000:0'') \<and>
   58 \<notin> set BASE62_CHARACTERS \<and>
   parse (js_string ''0000000000000000000000000:0'')
     = Inr (KSUID [0, 0, 0, 0, 0, 0, 0, 0, 0, 0, 0, 0, 0, 0, 0, 0, 0, 0, 61, 70])"
proof -
  have "parse (js_string ''0000000000000000000000000:0'')
     = Inr (KSUID [0, 0, 0, 0, 0, 0, 0, 0, 0, 0, 0, 0, 0, 0, 0, 0, 0, 0, 61, 70])"
    by (simp add: dec_eval ksuid_eval)
  moreover have "length (js_string ''0000000000000000000000000:0'') = 27 \<and> 58 \<in> set (js_string ''0000000000000000000000000:0'') \<and> 58 \<notin> set BASE62_CHARACTERS"
    by (simp add: js_string_def BASE62_CHARACTERS_def)
  ultimately show ?thesis by blast
qed

text \<open>C7, amended. \<open>parse s\<close> fails exactly when \<open>s\<close> is not 27 code units long, or is
  below \<open>MIN_STRING_ENCODED\<close> or above \<open>MAX_STRING_ENCODED\<close> in the order of strings,
  or has a code unit of \<open>0x80\<close> or more, or the number that its characters'
  digits form is \<open>2^160\<close> or more.\<close>

theorem C7_parse_fails_iff:
  "isl (parse s) \<longleftrightarrow>
     length s \<noteq> 27 \<or> str_less s MIN_STRING_ENCODED \<or> str_less MAX_STRING_ENCODED s \<or>
     \<not> is_ascii s \<or> 2 ^ 160 \<le> base62_number s"
proof (cases "length s \<noteq> 27 \<or> str_less s MIN_STRING_ENCODED \<or> str_less MAX_STRING_ENCODED s")
  case True
  then show ?thesis by (auto simp add: parse_def STRING_ENCODED_LENGTH_def)
next
  case False
  then have len: "length s = 27" by simp
  have "isl (parse s) \<longleftrightarrow> isl (decodeBase62 s)"
    using False decodeBase62_length [of s]
    by (auto simp add: parse_def STRING_ENCODED_LENGTH_def new_KSUID_def BYTE_LENGTH_def
        TIMESTAMP_BYTE_LENGTH_def PAYLOAD_BYTE_LENGTH_def split: sum.splits)
  then show ?thesis
    using False decodeBase62_fails_iff [OF len] by simp
qed

theorem C7_parse_fails_iff_witness:
  "length (js_string ''0000000000000000000000000:0'') = 27 \<and>
   \<not> str_less (js_string ''0000000000000000000000000:0'') MIN_STRING_ENCODED \<and>
   \<not> str_less MAX_STRING_ENCODED (js_string ''0000000000000000000000000:0'') \<and>
   is_ascii (js_string ''0000000000000000000000000:0'') \<and>
   base62_number (js_string ''0000000000000000000000000:0'') = 15686 \<and>
   \<not> isl (parse (js_string ''0000000000000000000000000:0''))"
proof -
  have 1: "length (js_string ''0000000000000000000000000:0'') = 27" by (simp add: js_string_def)
  have 2: "\<not> str_less (js_string ''0000000000000000000000000:0'') MIN_STRING_ENCODED"
    by (simp add: js_string_def MIN_STRING_ENCODED_def)
  have 3: "\<not> str_less MAX_STRING_ENCODED (js_string ''0000000000000000000000000:0'')"
    by (simp add: js_string_def MAX_STRING_ENCODED_def)
  have 4: "is_ascii (js_string ''0000000000000000000000000:0'')" by (simp add: js_string_def is_ascii_def)
  have 5: "base62_number (js_string ''0000000000000000000000000:0'') = 15686"
    by (simp add: js_string_def base62_number_def digits_value_def base62Value_def to_uint8_def
          OFFSET_UPPERCASE_def OFFSET_LOWERCASE_def)
  have "\<not> isl (parse (js_string ''0000000000000000000000000:0''))"
    using C7_parse_fails_iff [of "js_string ''0000000000000000000000000:0''"] 1 2 3 4 5 by simp
  with 1 2 3 4 5 show ?thesis by blast
qed

section \<open>The sequence\<close>

lemma calls_counter:
  "k \<le> 65536 \<Longrightarrow> calls k (new_Sequence s) = \<lparr>seed = s, counter = k\<rparr>"
proof (induction k)
  case 0
  show ?case by (simp add: new_Sequence_def)
next
  case (Suc k)
  then show ?case by (simp add: Sequence_next_def)
qed

lemma emitted_eq:
  "emitted s i = (if i < 65536 then Inr (withSequenceNumber s i)
                  else if i = 65536 then Inl TooManyIds else emitted s i)"
  by (simp add: emitted_def calls_counter Sequence_next_def)

lemma compare_loop_skip:
  assumes "\<forall>k. i \<le> k \<and> k < j \<longrightarrow> a ! k = b ! k" "i \<le> j" "j \<le> BYTE_LENGTH"
  shows "compare_loop a b i = compare_loop a b j"
  using assms
proof (induction "j - i" arbitrary: i)
  case 0
  then show ?case by simp
next
  case (Suc d)
  then have lt: "i < j" by simp
  then have "compare_loop a b i = compare_loop a b (i + 1)"
    using Suc.prems by (simp add: compare_loop_step)
  also have "\<dots> = compare_loop a b j"
    using Suc.hyps(2) Suc.prems lt by (intro Suc.hyps(1)) simp_all
  finally show ?case .
qed

lemma uint_of_nat_byte: "n < 256 \<Longrightarrow> uint (of_nat n :: byte) = int n"
  by (simp add: uint_nat unat_of_nat)

lemma of_nat_byte_inj: "m < 256 \<Longrightarrow> n < 256 \<Longrightarrow> (of_nat m :: byte) = of_nat n \<longleftrightarrow> m = n"
  by (metis uint_of_nat_byte of_nat_eq_iff)

lemma compare_loop_18:
  "compare_loop a b 18 =
     (if a ! 18 \<noteq> b ! 18 then uint (a ! 18) - uint (b ! 18)
      else if a ! 19 \<noteq> b ! 19 then uint (a ! 19) - uint (b ! 19) else 0)"
proof -
  have 1: "compare_loop a b 18 =
     (if a ! 18 \<noteq> b ! 18 then uint (a ! 18) - uint (b ! 18) else compare_loop a b 19)"
    using compare_loop_step [of 18 a b]
    by (simp add: BYTE_LENGTH_def TIMESTAMP_BYTE_LENGTH_def PAYLOAD_BYTE_LENGTH_def)
  have 2: "compare_loop a b 19 =
     (if a ! 19 \<noteq> b ! 19 then uint (a ! 19) - uint (b ! 19) else compare_loop a b 20)"
    using compare_loop_step [of 19 a b]
    by (simp add: BYTE_LENGTH_def TIMESTAMP_BYTE_LENGTH_def PAYLOAD_BYTE_LENGTH_def)
  have 3: "compare_loop a b 20 = 0"
    using compare_loop_done [of 20 a b]
    by (simp add: BYTE_LENGTH_def TIMESTAMP_BYTE_LENGTH_def PAYLOAD_BYTE_LENGTH_def)
  show ?thesis by (simp only: 1 2 3)
qed

lemma succ_div_mod:
  "Suc i div 256 = (if i mod 256 = 255 then Suc (i div 256) else i div 256)"
  "Suc i mod 256 = (if i mod 256 = 255 then 0 else Suc (i mod 256))"
  by (simp_all add: div_Suc mod_Suc)

lemma compare_withSequenceNumber:
  assumes "valid s" "i + 1 < 65536"
  shows "compare (withSequenceNumber s i) (withSequenceNumber s (i + 1)) = - 1"
proof -
  have len: "length (bytes s) = 20"
    using assms(1) by (simp add: valid_def BYTE_LENGTH_def TIMESTAMP_BYTE_LENGTH_def PAYLOAD_BYTE_LENGTH_def)
  define p where "p = take 18 (bytes s)"
  define a0 a1 b0 b1 :: byte where "a0 = of_nat (i div 256)" and "a1 = of_nat (i mod 256)"
    and "b0 = of_nat ((i + 1) div 256)" and "b1 = of_nat ((i + 1) mod 256)"
  have lp: "length p = 18" using len by (simp add: p_def)
  have a18: "(p @ [a0, a1]) ! 18 = a0" "(p @ [a0, a1]) ! 19 = a1"
    using lp by (simp_all add: nth_append)
  have b18: "(p @ [b0, b1]) ! 18 = b0" "(p @ [b0, b1]) ! 19 = b1"
    using lp by (simp_all add: nth_append)
  have "\<forall>k. 0 \<le> k \<and> k < 18 \<longrightarrow> (p @ [a0, a1]) ! k = (p @ [b0, b1]) ! k"
    using lp by (simp add: nth_append)
  then have skip: "compare_loop (p @ [a0, a1]) (p @ [b0, b1]) 0 = compare_loop (p @ [a0, a1]) (p @ [b0, b1]) 18"
    by (rule compare_loop_skip) (simp_all add: BYTE_LENGTH_def TIMESTAMP_BYTE_LENGTH_def PAYLOAD_BYTE_LENGTH_def)
  have hi: "i div 256 < 256" "(i + 1) div 256 < 256" using assms(2) by simp_all
  have lo: "i mod 256 < 256" "(i + 1) mod 256 < 256" by simp_all
  have u: "uint a0 = int (i div 256)" "uint a1 = int (i mod 256)"
    "uint b0 = int ((i + 1) div 256)" "uint b1 = int ((i + 1) mod 256)"
    unfolding a0_def a1_def b0_def b1_def using hi lo by (simp_all only: uint_of_nat_byte)
  have e0: "a0 = b0 \<longleftrightarrow> i div 256 = (i + 1) div 256"
    unfolding a0_def b0_def using hi by (simp only: of_nat_byte_inj)
  have e1: "a1 = b1 \<longleftrightarrow> i mod 256 = (i + 1) mod 256"
    unfolding a1_def b1_def using lo by (simp only: of_nat_byte_inj)
  have "compare_loop (p @ [a0, a1]) (p @ [b0, b1]) 18 = - 1"
    unfolding compare_loop_18 a18 b18 u e0 e1
    by (simp add: succ_div_mod del: of_nat_add of_nat_Suc)
  with skip show ?thesis
    by (simp add: compare_def getBytes_def withSequenceNumber_def p_def a0_def a1_def b0_def b1_def)
qed

lemma four_bytes:
  assumes "4 \<le> length (a :: byte list)"
  obtains a0 a1 a2 a3 r where "a = a0 # a1 # a2 # a3 # r"
proof -
  obtain a0 r0 where 0: "a = a0 # r0" using assms by (cases a) auto
  obtain a1 r1 where 1: "r0 = a1 # r1" using assms 0 by (cases r0) auto
  obtain a2 r2 where 2: "r1 = a2 # r2" using assms 0 1 by (cases r1) auto
  obtain a3 r3 where 3: "r2 = a3 # r3" using assms 0 1 2 by (cases r2) auto
  show ?thesis using that 0 1 2 3 by simp
qed

lemma be32_take4:
  assumes "4 \<le> length a" "4 \<le> length b" "take 4 a = take 4 b"
  shows "be32 a 0 = be32 b 0"
proof -
  obtain a0 a1 a2 a3 ra where a: "a = a0 # a1 # a2 # a3 # ra"
    using assms(1) by (rule four_bytes)
  obtain b0 b1 b2 b3 rb where b: "b = b0 # b1 # b2 # b3 # rb"
    using assms(2) by (rule four_bytes)
  show ?thesis using assms(3) by (simp add: a b be32_def load32_def)
qed

lemma withSequenceNumber_props:
  assumes "valid s"
  shows "valid (withSequenceNumber s n)"
    and "getTimestamp (withSequenceNumber s n) = getTimestamp s"
    and "take 18 (bytes (withSequenceNumber s n)) = take 18 (bytes s)"
proof -
  have len: "length (bytes s) = 20"
    using assms(1) by (simp add: valid_def BYTE_LENGTH_def TIMESTAMP_BYTE_LENGTH_def PAYLOAD_BYTE_LENGTH_def)
  show "valid (withSequenceNumber s n)"
    using len by (simp add: valid_def withSequenceNumber_def BYTE_LENGTH_def TIMESTAMP_BYTE_LENGTH_def PAYLOAD_BYTE_LENGTH_def)
  show "take 18 (bytes (withSequenceNumber s n)) = take 18 (bytes s)"
    using len by (simp add: withSequenceNumber_def)
  show "getTimestamp (withSequenceNumber s n) = getTimestamp s"
    unfolding getTimestamp_def
    using len by (intro be32_take4) (simp_all add: withSequenceNumber_def)
qed

text \<open>C9. For a sequence with any seed: each of the first 65536 calls of \<open>next()\<close>
  emits an identifier with the seed's timestamp and the seed's bytes 0 to 17 (the
  timestamp and the high-order 112 payload bits); consecutive emitted identifiers
  compare below 0; and the call after the 65536th emission fails.\<close>

theorem C9_sequence:
  assumes "valid s"
  shows "(\<forall>i<65536. \<exists>k. emitted s i = Inr k \<and> getTimestamp k = getTimestamp s \<and>
              take 18 (bytes k) = take 18 (bytes s)) \<and>
         (\<forall>i. i + 1 < 65536 \<longrightarrow>
              (\<exists>a b. emitted s i = Inr a \<and> emitted s (i + 1) = Inr b \<and> compare a b < 0)) \<and>
         emitted s 65536 = Inl TooManyIds"
proof (intro conjI allI impI)
  fix i :: nat assume "i < 65536"
  then show "\<exists>k. emitted s i = Inr k \<and> getTimestamp k = getTimestamp s \<and>
              take 18 (bytes k) = take 18 (bytes s)"
    using withSequenceNumber_props [OF assms] by (subst emitted_eq) simp
next
  fix i :: nat assume i: "i + 1 < 65536"
  then have "emitted s i = Inr (withSequenceNumber s i)"
    "emitted s (i + 1) = Inr (withSequenceNumber s (i + 1))"
    by (subst emitted_eq, simp)+
  then show "\<exists>a b. emitted s i = Inr a \<and> emitted s (i + 1) = Inr b \<and> compare a b < 0"
    using compare_withSequenceNumber [OF assms i] by simp
next
  show "emitted s 65536 = Inl TooManyIds"
    by (subst emitted_eq) simp
qed

theorem C9_sequence_witness:
  "valid Nil_KSUID \<and>
   (\<exists>a b. emitted Nil_KSUID 0 = Inr a \<and> emitted Nil_KSUID 1 = Inr b \<and> compare a b < 0) \<and>
   (\<exists>k. emitted Nil_KSUID 65535 = Inr k \<and> getTimestamp k = getTimestamp Nil_KSUID) \<and>
   emitted Nil_KSUID 65536 = Inl TooManyIds"
proof -
  have v: "valid Nil_KSUID"
    by (simp add: valid_def Nil_KSUID_def)
  note inst = C9_sequence [OF v]
  have mono: "\<forall>i. i + 1 < 65536 \<longrightarrow>
      (\<exists>a b. emitted Nil_KSUID i = Inr a \<and> emitted Nil_KSUID (i + 1) = Inr b \<and> compare a b < 0)"
    using inst by blast
  have emit: "\<forall>i<65536. \<exists>k. emitted Nil_KSUID i = Inr k \<and>
      getTimestamp k = getTimestamp Nil_KSUID \<and> take 18 (bytes k) = take 18 (bytes Nil_KSUID)"
    using inst by blast
  have last: "emitted Nil_KSUID 65536 = Inl TooManyIds"
    using inst by blast
  have "\<exists>a b. emitted Nil_KSUID 0 = Inr a \<and> emitted Nil_KSUID 1 = Inr b \<and> compare a b < 0"
    using mono [rule_format, of 0] by simp
  moreover have "\<exists>k. emitted Nil_KSUID 65535 = Inr k \<and> getTimestamp k = getTimestamp Nil_KSUID"
    using emit [rule_format, of 65535] by auto
  ultimately show ?thesis using v last by blast
qed

end
